theory Spec2Isabelle
  imports Complex_Main "HOL-Library.Multiset" "HOL-Library.AList"
begin

section \<open>Values of the program\<close>

text \<open>
  The development embeds the consensus engine, the provider registry and the
  orchestration facade of Orchestra (\<^verbatim>\<open>consensus.ts\<close>, \<^verbatim>\<open>orchestra.ts\<close>,
  \<^verbatim>\<open>registry.ts\<close>, \<^verbatim>\<open>provider.ts\<close>, \<^verbatim>\<open>types.ts\<close>).

  Conventions of the embedding.
  \<^item> A JavaScript number is an exact real; counters and the round budget are
    integers. IEEE rounding is not modelled: the consensus engine only divides one
    small count by another and compares with \<open>0.6\<close>, where exact and rounded
    arithmetic agree.
  \<^item> A string is a list of ASCII characters. \<^verbatim>\<open>toLowerCase\<close> maps \<open>A\<close>..\<open>Z\<close> to
    \<open>a\<close>..\<open>z\<close>; the class \<^verbatim>\<open>\s\<close> is tab, line feed, vertical tab, form feed,
    carriage return and space.
  \<^item> A rejected promise or a thrown exception is the left summand of a sum type.
  \<^item> A provider is given by how its calls settle: \<^verbatim>\<open>complete\<close> as a function of the
    prompt and the options, the health probe as one outcome. Every call settles.
    Which one of several rejected promises \<^verbatim>\<open>Promise.all\<close> reports depends on the
    order in which they settle; that order is a parameter of the embedding.
  \<^item> Response objects are compared by identity in the source
    (\<^verbatim>\<open>Array.prototype.includes\<close>), so the consensus computation works on
    references into a store of responses.
  \<^item> The record returned by the health check is a finite map from names to booleans.
  \<^item> Wall-clock fields (\<^verbatim>\<open>latency\<close>, \<^verbatim>\<open>totalTime\<close>), the token counts, the
    \<^verbatim>\<open>reasoning\<close> sentence and event emission are left out; no property below
    reads them.
\<close>

datatype error =
  Error string  \<comment> \<open>\<^verbatim>\<open>new Error(message)\<close>\<close>
| TypeError     \<comment> \<open>raised by the engine: reduce of an empty array, a property of undefined\<close>

record Response =
  content :: string
  provider :: string
  cost :: "real option"

type_synonym ref = nat
type_synonym heap = "ref \<Rightarrow> Response"

section \<open>Strings\<close>

definition isSpace :: "char \<Rightarrow> bool" where
  "isSpace c = (c \<in> set [CHR 0x09, CHR 0x0A, CHR 0x0B, CHR 0x0C, CHR 0x0D, CHR 0x20])"

definition lowerChar :: "char \<Rightarrow> char" where
  "lowerChar c =
     (case map_of (zip ''ABCDEFGHIJKLMNOPQRSTUVWXYZ'' ''abcdefghijklmnopqrstuvwxyz'') c of
        Some l \<Rightarrow> l
      | None \<Rightarrow> c)"

definition toLowerCase :: "string \<Rightarrow> string" where
  "toLowerCase s = map lowerChar s"

text \<open>
  \<^verbatim>\<open>s.split(/\s+/)\<close>: every maximal run of white space is one separator. The
  result is never empty: the empty string gives the one token \<open>''''\<close>, and a string
  that starts or ends with white space gives an empty first or last token.
\<close>

function split_from :: "string \<Rightarrow> string \<Rightarrow> string list" where
  "split_from cur [] = [cur]"
| "split_from cur (c # cs) =
     (if isSpace c then cur # split_from [] (dropWhile isSpace cs)
      else split_from (cur @ [c]) cs)"
  by pat_completeness auto
termination
  by (relation "measure (\<lambda>(cur, s). length s)")
     (auto simp: length_dropWhile_le less_Suc_eq_le)

definition split_ws :: "string \<Rightarrow> string list" where
  "split_ws s = split_from [] s"

section \<open>The consensus engine\<close>

subsection \<open>Similarity of two responses\<close>

text \<open>\<^verbatim>\<open>ConsensusEngine.areSimilar\<close>; \<open>similarity\<close> is its local constant.\<close>

definition similarity :: "heap \<Rightarrow> ref \<Rightarrow> ref \<Rightarrow> real" where
  "similarity h a b =
     (let wordsA = set (split_ws (toLowerCase (content (h a))));
          wordsB = set (split_ws (toLowerCase (content (h b))));
          intersection = Set.filter (\<lambda>x. x \<in> wordsB) wordsA;
          unionAB = wordsA \<union> wordsB
      in if card unionAB > 0 then real (card intersection) / real (card unionAB) else 0)"

definition areSimilar :: "heap \<Rightarrow> ref \<Rightarrow> ref \<Rightarrow> bool" where
  "areSimilar h a b = (similarity h a b > 0.6)"

subsection \<open>Grouping\<close>

text \<open>
  \<^verbatim>\<open>ConsensusEngine.groupSimilarResponses\<close>. \<open>scan_later\<close> is the inner loop over
  \<open>j\<close>, \<open>group_from\<close> the outer loop over \<open>i\<close>; \<open>used\<close> is the set of positions
  already placed in a group.
\<close>

function scan_later ::
  "heap \<Rightarrow> ref list \<Rightarrow> nat \<Rightarrow> nat \<Rightarrow> ref list \<times> nat set \<Rightarrow> ref list \<times> nat set" where
  "scan_later h responses i j (grp, used) =
     (if j < length responses then
        (if j \<in> used then scan_later h responses i (j + 1) (grp, used)
         else if areSimilar h (responses ! i) (responses ! j)
           then scan_later h responses i (j + 1) (grp @ [responses ! j], insert j used)
           else scan_later h responses i (j + 1) (grp, used))
      else (grp, used))"
  by pat_completeness auto
termination
  by (relation "measure (\<lambda>(h, responses, i, j, acc). length responses - j)") auto

function group_from ::
  "heap \<Rightarrow> ref list \<Rightarrow> nat \<Rightarrow> ref list list \<times> nat set \<Rightarrow> ref list list" where
  "group_from h responses i (groups, used) =
     (if i < length responses then
        (if i \<in> used then group_from h responses (i + 1) (groups, used)
         else
           (case scan_later h responses i (i + 1) ([responses ! i], insert i used) of
              (grp, used') \<Rightarrow> group_from h responses (i + 1) (groups @ [grp], used')))
      else groups)"
  by pat_completeness auto
termination
  by (relation "measure (\<lambda>(h, responses, i, acc). length responses - i)") auto

definition groupSimilarResponses :: "heap \<Rightarrow> ref list \<Rightarrow> ref list list" where
  "groupSimilarResponses h responses = group_from h responses 0 ([], {})"

declare scan_later.simps [simp del]
declare group_from.simps [simp del]

text \<open>
  The grouping as the design describes it: the first response still without a group
  seeds a group, which takes every later response still without a group that is
  similar to the seed; the rest is grouped in the same way.
\<close>

fun absorb_groups :: "('a \<Rightarrow> 'a \<Rightarrow> bool) \<Rightarrow> 'a list \<Rightarrow> 'a list list" where
  "absorb_groups sim [] = []"
| "absorb_groups sim (x # xs) =
     (x # filter (sim x) xs) # absorb_groups sim (filter (\<lambda>y. \<not> sim x y) xs)"


subsection \<open>Majority, confidence, synthesis\<close>

text \<open>
  \<^verbatim>\<open>Array.prototype.reduce\<close> without an initial value: the first element starts the
  accumulator, and an empty array is a \<^verbatim>\<open>TypeError\<close>.
\<close>

definition reduce1 :: "('a \<Rightarrow> 'a \<Rightarrow> 'a) \<Rightarrow> 'a list \<Rightarrow> error + 'a" where
  "reduce1 f xs = (case xs of [] \<Rightarrow> Inl TypeError | x # rest \<Rightarrow> Inr (foldl f x rest))"

text \<open>The constant \<^verbatim>\<open>largestGroup\<close> of \<^verbatim>\<open>calculateConsensus\<close>.\<close>

definition largestGroup :: "heap \<Rightarrow> ref list \<Rightarrow> error + ref list" where
  "largestGroup h responses =
     reduce1 (\<lambda>mx grp. if length grp > length mx then grp else mx)
       (groupSimilarResponses h responses)"

definition calculateConfidence :: "ref list \<Rightarrow> ref list \<Rightarrow> real" where
  "calculateConfidence majorityGroup allResponses =
     (let agreementRatio = real (length majorityGroup) / real (length allResponses);
          unanimity = (length majorityGroup = length allResponses);
          confidence = agreementRatio
      in if unanimity then min 1 (confidence * 1.2) else confidence)"

definition synthesizeResponse :: "heap \<Rightarrow> ref list \<Rightarrow> error + string" where
  "synthesizeResponse h grp = (case grp of [] \<Rightarrow> Inl TypeError | r # _ \<Rightarrow> Inr (content (h r)))"

datatype Mode = democratic | weighted | hierarchical

record Consensus =
  result :: string
  confidence :: real
  agreement :: real
  dissenting :: "ref list option"

definition calculateConsensus :: "heap \<Rightarrow> ref list \<Rightarrow> Mode \<Rightarrow> error + Consensus" where
  "calculateConsensus h responses mode =
     (case largestGroup h responses of
        Inl e \<Rightarrow> Inl e
      | Inr largest \<Rightarrow>
          (let agreement = real (length largest) / real (length responses);
               confidence = calculateConfidence largest responses;
               dissenting = filter (\<lambda>r. r \<notin> set largest) responses
           in case synthesizeResponse h largest of
                Inl e \<Rightarrow> Inl e
              | Inr text \<Rightarrow>
                  Inr \<lparr>result = text, confidence = confidence, agreement = agreement,
                       dissenting = (if length dissenting > 0 then Some dissenting else None)\<rparr>))"

section \<open>Providers and the registry\<close>

record QueryOptions =
  qo_provider :: "string option"

text \<open>
  \<^verbatim>\<open>IProvider\<close>. \<open>p_complete\<close> gives how a call of \<^verbatim>\<open>complete\<close> settles;
  \<open>p_healthCheck\<close> is \<open>None\<close> for a provider without a probe and otherwise how the
  probe settles.
\<close>

record IProvider =
  p_name :: string
  p_complete :: "string \<Rightarrow> QueryOptions option \<Rightarrow> error + Response"
  p_healthCheck :: "(error + bool) option"

record ProviderConfig =
  apiKey :: string

text \<open>The \<^verbatim>\<open>Map\<close> of the registry, in insertion order.\<close>

type_synonym registry = "(string \<times> IProvider) list"

definition createProvider :: "string \<Rightarrow> ProviderConfig \<Rightarrow> IProvider" where
  "createProvider name config =
     \<lparr>p_name = name,
      p_complete = (\<lambda>prompt options.
         Inr \<lparr>content = ''Response from '' @ name @ '': This is a simulated response to ''
                  @ [CHR 0x22] @ prompt @ [CHR 0x22],
              provider = name,
              cost = Some 0.001\<rparr>),
      p_healthCheck = Some (Inr True)\<rparr>"

definition registry_register :: "string \<Rightarrow> ProviderConfig \<Rightarrow> registry \<Rightarrow> registry" where
  "registry_register name config providers =
     AList.update name (createProvider name config) providers"

definition registry_get :: "string \<Rightarrow> registry \<Rightarrow> IProvider option" where
  "registry_get name providers = map_of providers name"

definition registry_remove :: "string \<Rightarrow> registry \<Rightarrow> registry" where
  "registry_remove name providers = AList.delete name providers"

definition registry_list :: "registry \<Rightarrow> string list" where
  "registry_list providers = map fst providers"

section \<open>The fan-out\<close>

text \<open>
  \<^verbatim>\<open>Promise.all\<close> over promises that have settled as \<open>ps\<close>. With no rejection it
  resolves with the values in the order of the promises. Otherwise it rejects with
  the reason of the promise that was rejected first; \<open>first\<close> picks that promise
  among the positions of the rejected ones (a pick outside them counts as the
  earliest position).
\<close>

definition Promise_all :: "(nat list \<Rightarrow> nat) \<Rightarrow> (error + 'a) list \<Rightarrow> error + 'a list" where
  "Promise_all first ps =
     (let rejected = filter (\<lambda>i. isl (ps ! i)) [0..<length ps]
      in if rejected = [] then Inr (map projr ps)
         else Inl (projl (ps ! (if first rejected \<in> set rejected then first rejected
                                else hd rejected))))"

text \<open>The callback that \<^verbatim>\<open>getResponses\<close> maps over the names: how its promise settles.\<close>

definition provider_call :: "registry \<Rightarrow> string \<Rightarrow> string \<Rightarrow> error + Response" where
  "provider_call reg prompt name =
     (case registry_get name reg of
        None \<Rightarrow> Inl (Error (''Provider '' @ name @ '' not found''))
      | Some p \<Rightarrow> p_complete p prompt None)"

definition getResponses ::
  "(nat list \<Rightarrow> nat) \<Rightarrow> registry \<Rightarrow> string \<Rightarrow> string list \<Rightarrow> error + Response list" where
  "getResponses first reg prompt providerNames =
     Promise_all first (map (provider_call reg prompt) providerNames)"

record ConsensusOptions =
  co_providers :: "string list option"
  co_mode :: "Mode option"

record Metadata =
  md_rounds :: nat
  totalCost :: real

record ConsensusResult = Consensus +
  providers :: "string list"
  metadata :: Metadata

text \<open>
  The constant \<^verbatim>\<open>providerNames\<close> of \<^verbatim>\<open>buildConsensus\<close>:
  \<^verbatim>\<open>options?.providers || this.registry.list()\<close>; an array, even an empty one, is
  truthy.
\<close>

definition consensus_providerNames :: "registry \<Rightarrow> ConsensusOptions option \<Rightarrow> string list" where
  "consensus_providerNames reg options =
     (case Option.bind options co_providers of
        Some ps \<Rightarrow> ps
      | None \<Rightarrow> registry_list reg)"

text \<open>
  \<^verbatim>\<open>ConsensusEngine.buildConsensus\<close>. Every call of \<^verbatim>\<open>complete\<close> returns an object
  of its own: the reference of a response is its position in the fan-out.
\<close>

definition buildConsensus ::
  "(nat list \<Rightarrow> nat) \<Rightarrow> registry \<Rightarrow> string \<Rightarrow> ConsensusOptions option \<Rightarrow> error + ConsensusResult" where
  "buildConsensus first reg prompt options =
     (let providerNames = consensus_providerNames reg options
      in if length providerNames = 0 then Inl (Error ''No providers available for consensus'')
         else
           (case getResponses first reg prompt providerNames of
              Inl e \<Rightarrow> Inl e
            | Inr responses \<Rightarrow>
                (let mode = (case Option.bind options co_mode of Some m \<Rightarrow> m | None \<Rightarrow> democratic)
                 in case calculateConsensus ((!) responses) [0..<length responses] mode of
                      Inl e \<Rightarrow> Inl e
                    | Inr c \<Rightarrow>
                        Inr \<lparr>result = result c, confidence = confidence c,
                             agreement = agreement c, dissenting = dissenting c,
                             providers = providerNames,
                             metadata =
                               \<lparr>md_rounds = 1,
                                totalCost =
                                  foldl (\<lambda>sum r. sum + (case cost r of Some c \<Rightarrow> c | None \<Rightarrow> 0))
                                    0 responses\<rparr>\<rparr>)))"


section \<open>The orchestration facade\<close>

text \<open>
  \<open>cfg_providers\<close> lists \<^verbatim>\<open>config.providers\<close> in the order of \<^verbatim>\<open>Object.entries\<close>.
  The round budget is an integer, as the configuration surface requires.
\<close>

record OrchestraConfig =
  cfg_providers :: "(string \<times> ProviderConfig) list"
  defaultProvider :: "string option"
  consensusThreshold :: "real option"
  maxDebateRounds :: "int option"

record Orchestra =
  config :: OrchestraConfig
  registry :: registry

text \<open>The instance once \<^verbatim>\<open>initialize\<close> has registered every configured provider.\<close>

definition initialize :: "OrchestraConfig \<Rightarrow> registry" where
  "initialize cfg = foldl (\<lambda>reg (name, c). registry_register name c reg) [] (cfg_providers cfg)"

definition new_Orchestra :: "OrchestraConfig \<Rightarrow> Orchestra" where
  "new_Orchestra cfg = \<lparr>config = cfg, registry = initialize cfg\<rparr>"

text \<open>
  \<^verbatim>\<open>a || b\<close> on optional strings and numbers: the empty string, zero and
  \<^verbatim>\<open>undefined\<close> are falsy.
\<close>

definition truthy_string :: "string option \<Rightarrow> string option" where
  "truthy_string v = (case v of Some s \<Rightarrow> (if s = [] then None else Some s) | None \<Rightarrow> None)"

definition truthy_number :: "'a::zero option \<Rightarrow> 'a option" where
  "truthy_number v = (case v of Some n \<Rightarrow> (if n = 0 then None else Some n) | None \<Rightarrow> None)"

definition query :: "Orchestra \<Rightarrow> string \<Rightarrow> QueryOptions option \<Rightarrow> error + Response" where
  "query orch prompt options =
     (let providerName =
            (case truthy_string (Option.bind options qo_provider) of
               Some p \<Rightarrow> p
             | None \<Rightarrow>
                 (case truthy_string (defaultProvider (config orch)) of
                    Some d \<Rightarrow> d
                  | None \<Rightarrow> ''openai''))
      in case registry_get providerName (registry orch) of
           None \<Rightarrow> Inl (Error (''Provider '' @ providerName @ '' not found''))
         | Some p \<Rightarrow>
             (case p_complete p prompt options of
                Inl e \<Rightarrow> Inl e
              | Inr response \<Rightarrow> Inr (response\<lparr>provider := providerName\<rparr>)))"

definition consensus ::
  "Orchestra \<Rightarrow> (nat list \<Rightarrow> nat) \<Rightarrow> string \<Rightarrow> ConsensusOptions option \<Rightarrow> error + ConsensusResult" where
  "consensus orch first prompt options = buildConsensus first (registry orch) prompt options"

subsection \<open>Agreement of a debate round\<close>

definition calculateSimilarity :: "string \<Rightarrow> string \<Rightarrow> real" where
  "calculateSimilarity a b =
     (let wordsA = set (split_ws a);
          wordsB = set (split_ws b);
          intersection = Set.filter (\<lambda>x. x \<in> wordsB) wordsA;
          unionAB = wordsA \<union> wordsB
      in if card unionAB > 0 then real (card intersection) / real (card unionAB) else 0)"

text \<open>
  \<^verbatim>\<open>Orchestra.calculateAgreement\<close>: the two nested loops run over the positions
  \<open>i < j\<close> and carry \<^verbatim>\<open>totalSimilarity\<close> and \<^verbatim>\<open>comparisons\<close>.
\<close>

definition calculateAgreement :: "Response list \<Rightarrow> real" where
  "calculateAgreement responses =
     (if length responses \<le> 1 then 1
      else
        (let contents = map (\<lambda>r. toLowerCase (content r)) responses
         in case foldl (\<lambda>acc i.
                   foldl (\<lambda>(totalSimilarity, comparisons) j.
                            (totalSimilarity + calculateSimilarity (contents ! i) (contents ! j),
                             comparisons + 1))
                     acc [i + 1..<length contents])
                 (0, 0 :: nat) [0..<length contents] of
              (totalSimilarity, comparisons) \<Rightarrow>
                if comparisons > 0 then totalSimilarity / real comparisons else 0))"

subsection \<open>Debate\<close>

record DebateRound =
  roundNo :: nat
  arguments :: "Response list"
  round_agreement :: real

record DebateOptions =
  do_providers :: "string list option"
  do_maxRounds :: "int option"
  do_threshold :: "real option"

record DebateResult =
  decision :: string
  rounds :: "DebateRound list"
  debate_agreement :: real
  participants :: "string list"
  debate_confidence :: real

definition join_lines :: "string list \<Rightarrow> string" where
  "join_lines xs = (case xs of [] \<Rightarrow> [] | x # rest \<Rightarrow> foldl (\<lambda>acc y. acc @ [CHR 0x0A] @ y) x rest)"

definition buildDebatePrompt :: "string \<Rightarrow> DebateRound list \<Rightarrow> error + string" where
  "buildDebatePrompt originalPrompt rs =
     (case rev rs of
        [] \<Rightarrow> Inl TypeError
      | lastRound # _ \<Rightarrow>
          (let perspectives =
                 join_lines (map (\<lambda>arg. provider arg @ '': '' @ take 200 (content arg) @ ''...'')
                                 (arguments lastRound))
           in Inr ([CHR 0x0A] @ ''Original question: '' @ originalPrompt @ [CHR 0x0A, CHR 0x0A]
                   @ ''Previous perspectives:'' @ [CHR 0x0A] @ perspectives @ [CHR 0x0A, CHR 0x0A]
                   @ ''Please reconsider your response taking into account these other viewpoints.''
                   @ [CHR 0x0A]
                   @ ''Aim for consensus while maintaining your analytical rigor.'')))"

definition synthesizeDecision :: "DebateRound list \<Rightarrow> error + string" where
  "synthesizeDecision rs =
     (case rev rs of
        [] \<Rightarrow> Inl TypeError
      | lastRound # _ \<Rightarrow>
          (case arguments lastRound of
             [] \<Rightarrow> Inl TypeError
           | bestResponse # _ \<Rightarrow> Inr (content bestResponse)))"

text \<open>
  The variables of the \<^verbatim>\<open>while\<close> loop of \<^verbatim>\<open>Orchestra.debate\<close>. The loop returns
  them as they stand when it is left, with the rejection that left it, if any.
\<close>

record loop_vars =
  l_rounds :: "DebateRound list"
  l_agreement :: real
  l_round :: nat
  l_prompt :: string

function debate_loop ::
  "Orchestra \<Rightarrow> (nat \<Rightarrow> nat list \<Rightarrow> nat) \<Rightarrow> string list \<Rightarrow> real \<Rightarrow> int \<Rightarrow> loop_vars
     \<Rightarrow> error option \<times> loop_vars" where
  "debate_loop orch first provs threshold maxRounds v =
     (if l_agreement v < threshold \<and> int (l_round v) < maxRounds then
        (let round' = l_round v + 1
         in case Promise_all (first round')
                   (map (\<lambda>p. query orch (l_prompt v) (Some \<lparr>qo_provider = Some p\<rparr>)) provs) of
              Inl e \<Rightarrow> (Some e, v\<lparr>l_round := round'\<rparr>)
            | Inr responses \<Rightarrow>
                (let agreement' = calculateAgreement responses;
                     rounds' = l_rounds v @
                        [\<lparr>roundNo = round', arguments = responses, round_agreement = agreement'\<rparr>];
                     v' = \<lparr>l_rounds = rounds', l_agreement = agreement', l_round = round',
                           l_prompt = l_prompt v\<rparr>
                 in if agreement' < threshold \<and> int round' < maxRounds then
                      (case buildDebatePrompt (l_prompt v) rounds' of
                         Inl e \<Rightarrow> (Some e, v')
                       | Inr prompt' \<Rightarrow>
                           debate_loop orch first provs threshold maxRounds (v'\<lparr>l_prompt := prompt'\<rparr>))
                    else debate_loop orch first provs threshold maxRounds v'))
      else (None, v))"
  by pat_completeness auto
termination
  by (relation "measure (\<lambda>(orch, first, provs, threshold, maxRounds, v). nat (maxRounds - int (l_round v)))")
     auto

declare debate_loop.simps [simp del]

text \<open>The constants \<^verbatim>\<open>maxRounds\<close>, \<^verbatim>\<open>threshold\<close> and \<^verbatim>\<open>providers\<close> of \<^verbatim>\<open>debate\<close>.\<close>

definition debate_maxRounds :: "Orchestra \<Rightarrow> DebateOptions option \<Rightarrow> int" where
  "debate_maxRounds orch options =
     (case truthy_number (Option.bind options do_maxRounds) of
        Some m \<Rightarrow> m
      | None \<Rightarrow>
          (case truthy_number (maxDebateRounds (config orch)) of Some m \<Rightarrow> m | None \<Rightarrow> 3))"

definition debate_threshold :: "Orchestra \<Rightarrow> DebateOptions option \<Rightarrow> real" where
  "debate_threshold orch options =
     (case truthy_number (Option.bind options do_threshold) of
        Some t \<Rightarrow> t
      | None \<Rightarrow>
          (case truthy_number (consensusThreshold (config orch)) of
             Some t \<Rightarrow> t
           | None \<Rightarrow> 0.7))"

definition debate_providers :: "Orchestra \<Rightarrow> DebateOptions option \<Rightarrow> string list" where
  "debate_providers orch options =
     (case Option.bind options do_providers of
        Some ps \<Rightarrow> ps
      | None \<Rightarrow> map fst (cfg_providers (config orch)))"

definition debate ::
  "Orchestra \<Rightarrow> (nat \<Rightarrow> nat list \<Rightarrow> nat) \<Rightarrow> string \<Rightarrow> DebateOptions option \<Rightarrow> error + DebateResult" where
  "debate orch first prompt options =
     (let maxRounds = debate_maxRounds orch options;
          threshold = debate_threshold orch options;
          provs = debate_providers orch options
      in case debate_loop orch first provs threshold maxRounds
                \<lparr>l_rounds = [], l_agreement = 0, l_round = 0, l_prompt = prompt\<rparr> of
           (Some e, v) \<Rightarrow> Inl e
         | (None, v) \<Rightarrow>
             (case synthesizeDecision (l_rounds v) of
                Inl e \<Rightarrow> Inl e
              | Inr d \<Rightarrow>
                  Inr \<lparr>decision = d, rounds = l_rounds v, debate_agreement = l_agreement v,
                       participants = provs, debate_confidence = l_agreement v\<rparr>))"

subsection \<open>Administration\<close>

definition addProvider :: "string \<Rightarrow> ProviderConfig \<Rightarrow> Orchestra \<Rightarrow> Orchestra" where
  "addProvider name c orch = orch\<lparr>registry := registry_register name c (registry orch)\<rparr>"

definition removeProvider :: "string \<Rightarrow> Orchestra \<Rightarrow> Orchestra" where
  "removeProvider name orch = orch\<lparr>registry := registry_remove name (registry orch)\<rparr>"

definition getProviders :: "Orchestra \<Rightarrow> string list" where
  "getProviders orch = registry_list (registry orch)"



section \<open>Specification-side notions\<close>




text \<open>
  The invariant of the debate loop, for threshold \<open>t\<close> and budget \<open>m\<close>: the
  rounds recorded so far are numbered from 1 without a gap, their number is the
  counter, the current agreement is that of the last round, every round but the last was
  followed by another one, and the counter is within the budget.
\<close>

definition loop_inv :: "real \<Rightarrow> int \<Rightarrow> loop_vars \<Rightarrow> bool" where
  "loop_inv t m v \<longleftrightarrow>
     length (l_rounds v) = l_round v
   \<and> map roundNo (l_rounds v) = [1..<Suc (l_round v)]
   \<and> (l_rounds v \<noteq> [] \<longrightarrow> l_agreement v = round_agreement (last (l_rounds v)))
   \<and> (\<forall>r\<in>set (butlast (l_rounds v)). round_agreement r < t \<and> int (roundNo r) < m)
   \<and> (\<forall>r\<in>set (l_rounds v). round_agreement r = calculateAgreement (arguments r))
   \<and> l_round v \<le> nat m"

section \<open>Example inputs\<close>

text \<open>
  Three answers, two of which differ only in case and spacing, held in a store; the
  same contents at other references and from other providers; two equal answers and
  a third; two empty answers.
\<close>

definition H3 :: heap where
  "H3 = (!) [\<lparr>content = ''Use Postgres'', provider = ''openai'', cost = None\<rparr>,
             \<lparr>content = ''use  POSTGRES'', provider = ''anthropic'', cost = None\<rparr>,
             \<lparr>content = ''Use MongoDB'', provider = ''google'', cost = None\<rparr>]"

definition H3' :: heap where
  "H3' = (!) [\<lparr>content = ''unused'', provider = ''none'', cost = None\<rparr>,
              \<lparr>content = ''Use Postgres'', provider = ''a'', cost = Some 1\<rparr>,
              \<lparr>content = ''use  POSTGRES'', provider = ''b'', cost = Some 2\<rparr>,
              \<lparr>content = ''Use MongoDB'', provider = ''c'', cost = None\<rparr>]"

definition P3 :: heap where
  "P3 = (!) [\<lparr>content = ''Use Postgres'', provider = ''openai'', cost = Some 0.001\<rparr>,
             \<lparr>content = ''Use Postgres'', provider = ''anthropic'', cost = Some 0.001\<rparr>,
             \<lparr>content = ''Use MongoDB'', provider = ''google'', cost = None\<rparr>]"

definition E2 :: heap where
  "E2 = (!) [\<lparr>content = [], provider = ''openai'', cost = None\<rparr>,
             \<lparr>content = [], provider = ''anthropic'', cost = None\<rparr>]"

text \<open>A registry with the one provider \<open>openai\<close>.\<close>

definition cfg0 :: ProviderConfig where
  "cfg0 = \<lparr>apiKey = ''key''\<rparr>"

definition solo :: registry where
  "solo = registry_register ''openai'' cfg0 []"

text \<open>
  Providers that always answer, or always reject, and two registries of three
  providers in which a different one rejects for the same reason.
\<close>

definition answering :: "string \<Rightarrow> string \<Rightarrow> IProvider" where
  "answering name answer =
     \<lparr>p_name = name,
      p_complete = (\<lambda>prompt options. Inr \<lparr>content = answer, provider = name, cost = None\<rparr>),
      p_healthCheck = None\<rparr>"

definition failing :: "string \<Rightarrow> error \<Rightarrow> IProvider" where
  "failing name reason =
     \<lparr>p_name = name, p_complete = (\<lambda>prompt options. Inl reason), p_healthCheck = None\<rparr>"

definition trio_b :: registry where
  "trio_b = [(''a'', answering ''a'' ''yes''), (''b'', failing ''b'' (Error ''boom'')),
             (''c'', answering ''c'' ''yes'')]"

definition trio_c :: registry where
  "trio_c = [(''a'', answering ''a'' ''yes''), (''b'', answering ''b'' ''yes''),
             (''c'', failing ''c'' (Error ''boom''))]"



text \<open>
  Configurations with two providers; in the second one a provider has the empty
  name.
\<close>

definition duo_config :: OrchestraConfig where
  "duo_config = \<lparr>cfg_providers = [(''openai'', cfg0), (''anthropic'', cfg0)],
                  defaultProvider = None, consensusThreshold = None, maxDebateRounds = None\<rparr>"

definition unnamed_config :: OrchestraConfig where
  "unnamed_config = \<lparr>cfg_providers = [([], cfg0), (''openai'', cfg0)],
                      defaultProvider = None, consensusThreshold = None, maxDebateRounds = None\<rparr>"

text \<open>A schedule in which the earliest listed of the rejected promises settles first.\<close>

definition in_order :: "nat \<Rightarrow> nat list \<Rightarrow> nat" where
  "in_order round' rejected = hd rejected"

text \<open>Debate options with a budget of one round and a threshold of \<open>0.9\<close>.\<close>

definition one_round :: DebateOptions where
  "one_round = \<lparr>do_providers = None, do_maxRounds = Some 1, do_threshold = Some 0.9\<rparr>"

text \<open>An instance with the two configured names, whose providers disagree.\<close>

definition pair_orch :: Orchestra where
  "pair_orch = \<lparr>config = duo_config,
                registry = [(''openai'', answering ''openai'' ''Use Postgres''),
                            (''anthropic'', answering ''anthropic'' ''Use MongoDB'')]\<rparr>"

section \<open>The grouping loops compute the greedy grouping\<close>

lemma scan_later_eq:
  "scan_later h rs i j (g, u) =
     (g @ map ((!) rs) (filter (\<lambda>k. k \<notin> u \<and> areSimilar h (rs ! i) (rs ! k)) [j..<length rs]),
      u \<union> {k. j \<le> k \<and> k < length rs \<and> k \<notin> u \<and> areSimilar h (rs ! i) (rs ! k)})"
proof (induction h rs i j "(g, u)" arbitrary: g u rule: scan_later.induct)
  case (1 h rs i j g u)
  show ?case
  proof (cases "j < length rs")
    case False
    then show ?thesis by (auto simp add: scan_later.simps)
  next
    case True
    note lt = True
    have upt: "[j..<length rs] = j # [Suc j..<length rs]"
      using lt by (simp add: upt_conv_Cons)
    show ?thesis
    proof (cases "j \<in> u")
      case True
      have "{k. j \<le> k \<and> k < length rs \<and> k \<notin> u \<and> areSimilar h (rs ! i) (rs ! k)}
          = {k. Suc j \<le> k \<and> k < length rs \<and> k \<notin> u \<and> areSimilar h (rs ! i) (rs ! k)}"
        using True by (auto simp: Suc_le_eq le_less)
      then show ?thesis
        using lt True "1.hyps"(1)[OF lt True] by (simp add: scan_later.simps[of h rs i j] upt)
    next
      case False
      note nu = False
      show ?thesis
      proof (cases "areSimilar h (rs ! i) (rs ! j)")
        case True
        have f: "filter (\<lambda>k. k \<notin> insert j u \<and> areSimilar h (rs ! i) (rs ! k)) [Suc j..<length rs]
               = filter (\<lambda>k. k \<notin> u \<and> areSimilar h (rs ! i) (rs ! k)) [Suc j..<length rs]"
          by (rule filter_cong) auto
        have s: "insert j u \<union> {k. Suc j \<le> k \<and> k < length rs \<and> k \<notin> insert j u \<and> areSimilar h (rs ! i) (rs ! k)}
               = u \<union> {k. j \<le> k \<and> k < length rs \<and> k \<notin> u \<and> areSimilar h (rs ! i) (rs ! k)}"
          using True nu lt by (auto simp: Suc_le_eq le_less)
        show ?thesis
          using lt nu True "1.hyps"(2)[OF lt nu True] f s
          by (simp add: scan_later.simps[of h rs i j] upt)
      next
        case False
        have s: "{k. Suc j \<le> k \<and> k < length rs \<and> k \<notin> u \<and> areSimilar h (rs ! i) (rs ! k)}
               = {k. j \<le> k \<and> k < length rs \<and> k \<notin> u \<and> areSimilar h (rs ! i) (rs ! k)}"
          using False by (auto simp: Suc_le_eq le_less)
        show ?thesis
          using lt nu False "1.hyps"(3)[OF lt nu False] s
          by (simp add: scan_later.simps[of h rs i j] upt)
      qed
    qed
  qed
qed

lemma group_from_eq:
  "group_from h rs i (gs, u) =
     gs @ absorb_groups (areSimilar h) (map ((!) rs) (filter (\<lambda>k. k \<notin> u) [i..<length rs]))"
proof (induction h rs i "(gs, u)" arbitrary: gs u rule: group_from.induct)
  case (1 h rs i gs u)
  show ?case
  proof (cases "i < length rs")
    case False
    then show ?thesis by (simp add: group_from.simps)
  next
    case True
    note lt = True
    have upt: "[i..<length rs] = i # [Suc i..<length rs]"
      using lt by (simp add: upt_conv_Cons)
    show ?thesis
    proof (cases "i \<in> u")
      case True
      then show ?thesis
        using lt "1.hyps"(1)[OF lt True] by (simp add: group_from.simps[of h rs i] upt)
    next
      case False
      define S where "S = (\<lambda>k. areSimilar h (rs ! i) (rs ! k))"
      define grp where "grp = [rs ! i] @ map ((!) rs) (filter (\<lambda>k. k \<notin> insert i u \<and> S k) [Suc i..<length rs])"
      define u' where "u' = insert i u \<union> {k. Suc i \<le> k \<and> k < length rs \<and> k \<notin> insert i u \<and> S k}"
      have sc: "scan_later h rs i (i + 1) ([rs ! i], insert i u) = (grp, u')"
        by (simp add: scan_later_eq grp_def u'_def S_def)
      have ih: "group_from h rs (i + 1) (gs @ [grp], u') =
          (gs @ [grp]) @ absorb_groups (areSimilar h) (map ((!) rs) (filter (\<lambda>k. k \<notin> u') [i + 1..<length rs]))"
        using "1.hyps"(2)[OF lt False sc[symmetric]] .
      let ?rest = "map ((!) rs) (filter (\<lambda>k. k \<notin> u) [Suc i..<length rs])"
      have g: "grp = rs ! i # filter (areSimilar h (rs ! i)) ?rest"
      proof -
        have "filter (\<lambda>k. k \<notin> insert i u \<and> S k) [Suc i..<length rs]
            = filter S (filter (\<lambda>k. k \<notin> u) [Suc i..<length rs])"
          unfolding filter_filter by (rule filter_cong) auto
        then show ?thesis
          by (simp add: grp_def filter_map o_def S_def)
      qed
      have r: "map ((!) rs) (filter (\<lambda>k. k \<notin> u') [i + 1..<length rs])
             = filter (\<lambda>y. \<not> areSimilar h (rs ! i) y) ?rest"
      proof -
        have "filter (\<lambda>k. k \<notin> u') [Suc i..<length rs]
            = filter (\<lambda>k. \<not> S k) (filter (\<lambda>k. k \<notin> u) [Suc i..<length rs])"
          unfolding filter_filter by (rule filter_cong) (auto simp: u'_def)
        then show ?thesis
          by (simp add: filter_map o_def S_def)
      qed
      have "group_from h rs i (gs, u) = group_from h rs (i + 1) (gs @ [grp], u')"
        by (subst group_from.simps) (simp only: lt False sc if_True if_False prod.case)
      also have "\<dots> = gs @ grp # absorb_groups (areSimilar h) (filter (\<lambda>y. \<not> areSimilar h (rs ! i) y) ?rest)"
        by (simp only: ih r) simp
      also have "\<dots> = gs @ absorb_groups (areSimilar h) (rs ! i # ?rest)"
        by (simp add: g)
      finally show ?thesis
        using False by (simp add: upt)
    qed
  qed
qed

lemma groupSimilarResponses_absorb:
  "groupSimilarResponses h rs = absorb_groups (areSimilar h) rs"
  by (simp add: groupSimilarResponses_def group_from_eq map_nth)

section \<open>Token sets and similarity\<close>

lemma split_from_nonempty: "split_from cur s \<noteq> []"
  by (induction cur s rule: split_from.induct) auto

lemma split_ws_nonempty: "split_ws s \<noteq> []"
  by (simp add: split_ws_def split_from_nonempty)

lemma jaccard_same:
  assumes "finite W" "W \<noteq> {}"
  shows "(if card (W \<union> W) > 0 then real (card (Set.filter (\<lambda>x. x \<in> W) W)) / real (card (W \<union> W)) else 0) = 1"
proof -
  have "Set.filter (\<lambda>x. x \<in> W) W = W" by auto
  moreover have "card W > 0" using assms by (simp add: card_gt_0_iff)
  ultimately show ?thesis by simp
qed

lemma similarity_calculateSimilarity:
  "similarity h a b = calculateSimilarity (toLowerCase (content (h a))) (toLowerCase (content (h b)))"
  by (simp add: similarity_def calculateSimilarity_def)

lemma calculateSimilarity_same_words:
  assumes "set (split_ws a) = set (split_ws b)"
  shows "calculateSimilarity a b = 1"
proof -
  have "set (split_ws b) \<noteq> {}" by (simp add: split_ws_nonempty)
  then show ?thesis
    unfolding calculateSimilarity_def Let_def assms
    using jaccard_same[of "set (split_ws b)"] by simp
qed

lemma calculateSimilarity_range: "0 \<le> calculateSimilarity a b \<and> calculateSimilarity a b \<le> 1"
proof -
  let ?A = "set (split_ws a)" and ?B = "set (split_ws b)"
  have "card (Set.filter (\<lambda>x. x \<in> ?B) ?A) \<le> card (?A \<union> ?B)"
    by (rule card_mono) auto
  then show ?thesis
    by (simp add: calculateSimilarity_def Let_def divide_le_eq_1)
qed

lemma calculateSimilarity_words_cong:
  assumes "set (split_ws a) = set (split_ws a')" "set (split_ws b) = set (split_ws b')"
  shows "calculateSimilarity a b = calculateSimilarity a' b'"
  by (simp add: calculateSimilarity_def assms)


section \<open>Properties of the greedy grouping\<close>

lemma absorb_groups_mset: "mset (concat (absorb_groups sim xs)) = mset xs"
proof (induction sim xs rule: absorb_groups.induct)
  case (1 sim)
  show ?case by simp
next
  case (2 sim x xs)
  have "mset (filter (sim x) xs) + mset (filter (\<lambda>y. \<not> sim x y) xs) = mset xs"
    by (simp add: multiset_partition[symmetric])
  with 2 show ?case by (simp add: add.assoc)
qed

lemma absorb_groups_seeded:
  "g \<in> set (absorb_groups sim xs) \<Longrightarrow>
     \<exists>s rest. g = s # rest \<and> s \<in> set xs \<and> set rest \<subseteq> set xs \<and> (\<forall>y\<in>set rest. sim s y)"
proof (induction sim xs rule: absorb_groups.induct)
  case (1 sim)
  then show ?case by simp
next
  case (2 sim x xs)
  from "2.prems" consider "g = x # filter (sim x) xs"
    | "g \<in> set (absorb_groups sim (filter (\<lambda>y. \<not> sim x y) xs))" by auto
  then show ?case
  proof cases
    case 1
    then show ?thesis by auto
  next
    case 2
    from "2.IH"[OF 2] obtain s rest where
      "g = s # rest" "s \<in> set (filter (\<lambda>y. \<not> sim x y) xs)"
      "set rest \<subseteq> set (filter (\<lambda>y. \<not> sim x y) xs)" "\<forall>y\<in>set rest. sim s y" by blast
    then show ?thesis by auto
  qed
qed

lemma absorb_groups_rest_dissimilar:
  "g \<in> set (absorb_groups sim (filter (\<lambda>y. \<not> sim x y) xs)) \<Longrightarrow> y \<in> set g \<Longrightarrow> y \<in> set xs \<and> \<not> sim x y"
  using absorb_groups_seeded[of g sim "filter (\<lambda>y. \<not> sim x y) xs"] by auto

lemma absorb_groups_disjoint:
  assumes refl: "\<And>a. sim a a"
  shows "i < j \<Longrightarrow> j < length (absorb_groups sim xs) \<Longrightarrow>
         set (absorb_groups sim xs ! i) \<inter> set (absorb_groups sim xs ! j) = {}"
proof (induction xs arbitrary: i j rule: length_induct)
  case (1 xs)
  show ?case
  proof (cases xs)
    case Nil
    with "1.prems" show ?thesis by simp
  next
    case (Cons x ys)
    let ?ys' = "filter (\<lambda>y. \<not> sim x y) ys"
    let ?rest = "absorb_groups sim ?ys'"
    have gs: "absorb_groups sim xs = (x # filter (sim x) ys) # ?rest"
      by (simp add: Cons)
    from "1.prems" obtain j' where j: "j = Suc j'" "j' < length ?rest"
      unfolding gs by (cases j) auto
    show ?thesis
    proof (cases i)
      case 0
      have mem: "?rest ! j' \<in> set ?rest" using j by simp
      have far: "\<not> sim x y" if "y \<in> set (?rest ! j')" for y
        using absorb_groups_rest_dissimilar[OF mem that] by simp
      have "x \<notin> set (?rest ! j')" using far refl by blast
      moreover have "y \<notin> set (?rest ! j')" if "y \<in> set (filter (sim x) ys)" for y
      proof -
        from that have "sim x y" by simp
        then show ?thesis using far by blast
      qed
      ultimately have "set (x # filter (sim x) ys) \<inter> set (?rest ! j') = {}"
        by auto
      then show ?thesis unfolding gs 0 j by simp
    next
      case (Suc i')
      have len: "length ?ys' < length xs"
        using Cons by (simp add: less_Suc_eq_le)
      have "i' < j'" using "1.prems"(1) Suc j by simp
      with "1.IH" len j(2) have "set (?rest ! i') \<inter> set (?rest ! j') = {}"
        by blast
      then show ?thesis unfolding gs Suc j by simp
    qed
  qed
qed

lemma absorb_groups_same_key:
  assumes cong: "\<And>a b c. f a = f b \<Longrightarrow> sim c a = sim c b"
      and refl: "\<And>a b. f a = f b \<Longrightarrow> sim a b"
  shows "a \<in> set xs \<Longrightarrow> b \<in> set xs \<Longrightarrow> f a = f b \<Longrightarrow>
         \<exists>g\<in>set (absorb_groups sim xs). a \<in> set g \<and> b \<in> set g"
proof (induction xs rule: length_induct)
  case (1 xs)
  show ?case
  proof (cases xs)
    case Nil
    with "1.prems" show ?thesis by simp
  next
    case (Cons x ys)
    have ab: "sim x a = sim x b" using cong "1.prems"(3) by blast
    show ?thesis
    proof (cases "a = x \<or> sim x a")
      case True
      have xa: "a = x \<or> sim x a" by (rule True)
      have xb: "b = x \<or> sim x b"
      proof (cases "sim x a")
        case True
        then show ?thesis using ab by simp
      next
        case False
        with xa have "a = x" by simp
        then have "sim x b" using refl[of x b] "1.prems"(3) by simp
        then show ?thesis by simp
      qed
      have "a \<in> set (x # filter (sim x) ys)" using "1.prems"(1) xa Cons by auto
      moreover have "b \<in> set (x # filter (sim x) ys)" using "1.prems"(2) xb Cons by auto
      ultimately show ?thesis unfolding Cons absorb_groups.simps by (meson list.set_intros(1))
    next
      case False
      then have na: "\<not> sim x a" "a \<noteq> x" by auto
      then have nb: "\<not> sim x b" using ab by simp
      have "sim x x" using refl[of x x] by simp
      then have "b \<noteq> x" using nb by auto
      then have in': "a \<in> set (filter (\<lambda>y. \<not> sim x y) ys)" "b \<in> set (filter (\<lambda>y. \<not> sim x y) ys)"
        using "1.prems" na nb Cons by auto
      have "length (filter (\<lambda>y. \<not> sim x y) ys) < length xs"
        using Cons by (simp add: less_Suc_eq_le)
      with "1.IH" in' "1.prems"(3)
      have "\<exists>g\<in>set (absorb_groups sim (filter (\<lambda>y. \<not> sim x y) ys)). a \<in> set g \<and> b \<in> set g"
        by blast
      then show ?thesis unfolding Cons absorb_groups.simps by (meson list.set_intros(2))
    qed
  qed
qed

lemma absorb_groups_map:
  assumes "\<And>a b. sim a b = simK (f a) (f b)"
  shows "map (map f) (absorb_groups sim xs) = absorb_groups simK (map f xs)"
proof (induction xs rule: length_induct)
  case (1 xs)
  show ?case
  proof (cases xs)
    case Nil
    then show ?thesis by simp
  next
    case (Cons x ys)
    have sx: "sim x = (\<lambda>y. simK (f x) (f y))"
      by (rule ext) (rule assms)
    have a: "map f (filter (sim x) ys) = filter (simK (f x)) (map f ys)"
      by (simp add: filter_map o_def sx)
    have b: "map f (filter (\<lambda>y. \<not> sim x y) ys) = filter (\<lambda>y. \<not> simK (f x) y) (map f ys)"
      by (simp add: filter_map o_def sx)
    have "length (filter (\<lambda>y. \<not> sim x y) ys) < length xs"
      using Cons by (simp add: less_Suc_eq_le)
    with "1.IH" have "map (map f) (absorb_groups sim (filter (\<lambda>y. \<not> sim x y) ys))
         = absorb_groups simK (map f (filter (\<lambda>y. \<not> sim x y) ys))" by blast
    then show ?thesis by (simp add: Cons a b)
  qed
qed

lemma similarity_same_words:
  "set (split_ws (toLowerCase (content (h a)))) = set (split_ws (toLowerCase (content (h b))))
   \<Longrightarrow> similarity h a b = 1"
  by (simp add: similarity_calculateSimilarity calculateSimilarity_same_words)

lemma areSimilar_same_words:
  "set (split_ws (toLowerCase (content (h a)))) = set (split_ws (toLowerCase (content (h b))))
   \<Longrightarrow> areSimilar h a b"
  by (simp add: areSimilar_def similarity_same_words)

lemma areSimilar_words_cong:
  "set (split_ws (toLowerCase (content (h a)))) = set (split_ws (toLowerCase (content (h b))))
   \<Longrightarrow> areSimilar h c a = areSimilar h c b"
  by (simp add: areSimilar_def similarity_def)

lemma areSimilar_refl: "areSimilar h a a"
  by (simp add: areSimilar_same_words)

lemma same_words_same_group:
  assumes w: "set (split_ws (toLowerCase (content (h a)))) = set (split_ws (toLowerCase (content (h b))))"
      and a: "a \<in> set rs" and b: "b \<in> set rs"
  shows "\<exists>g\<in>set (groupSimilarResponses h rs). a \<in> set g \<and> b \<in> set g"
proof -
  let ?f = "\<lambda>r. set (split_ws (toLowerCase (content (h r))))"
  have cong: "\<And>x y z. ?f x = ?f y \<Longrightarrow> areSimilar h z x = areSimilar h z y"
    by (rule areSimilar_words_cong)
  have refl: "\<And>x y. ?f x = ?f y \<Longrightarrow> areSimilar h x y"
    by (rule areSimilar_same_words)
  have "?f a = ?f b" by (rule w)
  from absorb_groups_same_key[where f = ?f and sim = "areSimilar h", OF cong refl a b this]
  show ?thesis unfolding groupSimilarResponses_absorb by blast
qed

lemma groups_disjoint:
  "i < j \<Longrightarrow> j < length (groupSimilarResponses h rs) \<Longrightarrow>
     set (groupSimilarResponses h rs ! i) \<inter> set (groupSimilarResponses h rs ! j) = {}"
  unfolding groupSimilarResponses_absorb
  by (rule absorb_groups_disjoint) (simp_all add: areSimilar_refl)

lemma groups_disjoint_neq:
  assumes "i \<noteq> j" "i < length (groupSimilarResponses h rs)" "j < length (groupSimilarResponses h rs)"
  shows "set (groupSimilarResponses h rs ! i) \<inter> set (groupSimilarResponses h rs ! j) = {}"
proof (cases "i < j")
  case True
  then show ?thesis using assms by (simp add: groups_disjoint)
next
  case False
  then have "j < i" using assms by simp
  then have "set (groupSimilarResponses h rs ! j) \<inter> set (groupSimilarResponses h rs ! i) = {}"
    using assms by (simp add: groups_disjoint)
  then show ?thesis by blast
qed

lemma groups_mset: "mset (concat (groupSimilarResponses h rs)) = mset rs"
  by (simp add: groupSimilarResponses_absorb absorb_groups_mset)

lemma groups_nonempty: "[] \<notin> set (groupSimilarResponses h rs)"
  unfolding groupSimilarResponses_absorb
  using absorb_groups_seeded[of "[]" "areSimilar h" rs] by auto

lemma groups_exist: "rs \<noteq> [] \<Longrightarrow> groupSimilarResponses h rs \<noteq> []"
  unfolding groupSimilarResponses_absorb by (cases rs) simp_all

text \<open>The fold of \<open>reduce\<close> keeps the first of the longest groups.\<close>

lemma foldl_longest:
  fixes x :: "'a list"
  defines "pick \<equiv> (\<lambda>mx grp :: 'a list. if length grp > length mx then grp else mx)"
  shows "\<exists>k < length (x # rest).
           (x # rest) ! k = foldl pick x rest
         \<and> (\<forall>j < length (x # rest). length ((x # rest) ! j) \<le> length (foldl pick x rest))
         \<and> (\<forall>j < k. length ((x # rest) ! j) < length (foldl pick x rest))"
proof (induction rest rule: rev_induct)
  case Nil
  show ?case by simp
next
  case (snoc g rest)
  let ?m = "foldl pick x rest"
  from snoc obtain k where k: "k < length (x # rest)" "(x # rest) ! k = ?m"
    "\<forall>j < length (x # rest). length ((x # rest) ! j) \<le> length ?m"
    "\<forall>j < k. length ((x # rest) ! j) < length ?m" by blast
  have nth_old: "(x # rest @ [g]) ! j = (x # rest) ! j" if "j < length (x # rest)" for j
    using that by (metis append_Cons nth_append)
  have nth_new: "(x # rest @ [g]) ! length (x # rest) = g"
    by (metis append_Cons nth_append_length)
  show ?case
  proof (cases "length g > length ?m")
    case True
    then have m: "foldl pick x (rest @ [g]) = g" by (simp add: pick_def)
    have "\<forall>j < length (x # rest @ [g]). length ((x # rest @ [g]) ! j) \<le> length g"
    proof (intro allI impI)
      fix j assume "j < length (x # rest @ [g])"
      then consider "j < length (x # rest)" | "j = length (x # rest)" by force
      then show "length ((x # rest @ [g]) ! j) \<le> length g"
      proof cases
        case 1
        then show ?thesis using k(3) True nth_old[OF 1] by (metis le_less_trans less_imp_le)
      next
        case 2
        then show ?thesis using nth_new by simp
      qed
    qed
    moreover have "\<forall>j < length (x # rest). length ((x # rest @ [g]) ! j) < length g"
    proof (intro allI impI)
      fix j assume j: "j < length (x # rest)"
      then show "length ((x # rest @ [g]) ! j) < length g"
        using k(3) True nth_old[OF j] by (metis le_less_trans)
    qed
    ultimately show ?thesis
      unfolding m using nth_new
      by (intro exI[of _ "length (x # rest)"]) simp
  next
    case False
    then have m: "foldl pick x (rest @ [g]) = ?m" by (simp add: pick_def)
    have "\<forall>j < length (x # rest @ [g]). length ((x # rest @ [g]) ! j) \<le> length ?m"
    proof (intro allI impI)
      fix j assume "j < length (x # rest @ [g])"
      then consider "j < length (x # rest)" | "j = length (x # rest)" by force
      then show "length ((x # rest @ [g]) ! j) \<le> length ?m"
      proof cases
        case 1
        then show ?thesis using k(3) nth_old[OF 1] by simp
      next
        case 2
        then show ?thesis using nth_new False by simp
      qed
    qed
    moreover have "\<forall>j < k. length ((x # rest @ [g]) ! j) < length ?m"
    proof (intro allI impI)
      fix j assume j: "j < k"
      then have "j < length (x # rest)" using k(1) by simp
      then show "length ((x # rest @ [g]) ! j) < length ?m"
        using k(4) j nth_old by simp
    qed
    moreover have "(x # rest @ [g]) ! k = ?m" using k(1,2) nth_old by simp
    moreover have "k < length (x # rest @ [g])" using k(1) by simp
    ultimately show ?thesis unfolding m by blast
  qed
qed

lemma foldl_longest_map:
  "map f (foldl (\<lambda>mx grp. if length grp > length mx then grp else mx) x rest)
   = foldl (\<lambda>mx grp. if length grp > length mx then grp else mx) (map f x) (map (map f) rest)"
  by (induction rest arbitrary: x) simp_all

section \<open>Similarity and grouping: the claims\<close>

lemma reduce1_longest_map:
  "map_sum id (map f) (reduce1 (\<lambda>mx grp. if length grp > length mx then grp else mx) gs)
   = reduce1 (\<lambda>mx grp. if length grp > length mx then grp else mx) (map (map f) gs)"
  by (cases gs) (simp_all add: reduce1_def foldl_longest_map)

lemma groups_contents:
  "map (map (\<lambda>r. content (h r))) (groupSimilarResponses h rs)
   = absorb_groups (\<lambda>c d. calculateSimilarity (toLowerCase c) (toLowerCase d) > 0.6)
       (map (\<lambda>r. content (h r)) rs)"
  unfolding groupSimilarResponses_absorb
  by (rule absorb_groups_map) (simp add: areSimilar_def similarity_calculateSimilarity)




text \<open>
  Claim C4 says that two responses with empty content have similarity 0 and fall into
  separate groups. In the code the split of the empty string is the one empty token,
  so both token sets hold just that token: the similarity is 1 and the two responses
  share a group. First the failing instance, then the statement that holds.
\<close>

theorem empty_contents_counterexample:
  "similarity E2 0 1 = 1 \<and> similarity E2 0 1 \<noteq> 0 \<and> groupSimilarResponses E2 [0, 1] = [[0, 1]]"
  by code_simp

text \<open>
  Claim C4, amended. For two responses with empty content each token set is the
  singleton of the empty token, the union is never empty, the similarity is 1, and
  every grouping that contains both puts them into one group.
\<close>

theorem empty_contents_same_group:
  assumes "content (h a) = []" and "content (h b) = []"
  shows "set (split_ws (toLowerCase (content (h a)))) = {[]}
       \<and> set (split_ws (toLowerCase (content (h b)))) = {[]}
       \<and> 0 < card (set (split_ws (toLowerCase (content (h a)))) \<union> set (split_ws (toLowerCase (content (h b)))))
       \<and> similarity h a b = 1
       \<and> areSimilar h a b
       \<and> (a \<in> set rs \<and> b \<in> set rs \<longrightarrow>
            (\<exists>g\<in>set (groupSimilarResponses h rs). a \<in> set g \<and> b \<in> set g))"
proof -
  have e: "set (split_ws (toLowerCase [])) = {[]}"
    by (simp add: split_ws_def toLowerCase_def)
  have w: "set (split_ws (toLowerCase (content (h a)))) = set (split_ws (toLowerCase (content (h b))))"
    by (simp add: assms)
  show ?thesis
    using similarity_same_words[OF w] areSimilar_same_words[OF w] same_words_same_group[OF w]
    by (simp add: assms e)
qed

theorem empty_contents_same_group_witness:
  "similarity E2 0 1 = 1 \<and> areSimilar E2 0 1
   \<and> (\<exists>g\<in>set (groupSimilarResponses E2 [0, 1]). 0 \<in> set g \<and> 1 \<in> set g)"
proof -
  have a: "content (E2 0) = []" and b: "content (E2 1) = []"
    by (simp_all add: E2_def)
  from empty_contents_same_group[OF a b, of "[0, 1]"] show ?thesis by simp
qed

text \<open>
  Claim C5. The loops of \<^verbatim>\<open>groupSimilarResponses\<close> compute the greedy grouping in
  input order; the groups, concatenated, hold every response as often as the input
  does; no group is empty; groups at different positions share no response; and the
  contents of the groups and of the majority group are a function of the sequence of
  contents alone, so grouping the same responses again gives the same groups.
\<close>

theorem grouping_partitions:
  "groupSimilarResponses h rs = absorb_groups (areSimilar h) rs
   \<and> mset (concat (groupSimilarResponses h rs)) = mset rs
   \<and> [] \<notin> set (groupSimilarResponses h rs)
   \<and> (\<forall>i j. i < j \<and> j < length (groupSimilarResponses h rs) \<longrightarrow>
         set (groupSimilarResponses h rs ! i) \<inter> set (groupSimilarResponses h rs ! j) = {})
   \<and> (map (\<lambda>r. content (h r)) rs = map (\<lambda>r. content (h' r)) rs' \<longrightarrow>
         map (map (\<lambda>r. content (h r))) (groupSimilarResponses h rs)
           = map (map (\<lambda>r. content (h' r))) (groupSimilarResponses h' rs')
       \<and> map_sum id (map (\<lambda>r. content (h r))) (largestGroup h rs)
           = map_sum id (map (\<lambda>r. content (h' r))) (largestGroup h' rs'))"
proof -
  have det: "map (map (\<lambda>r. content (h r))) (groupSimilarResponses h rs)
           = map (map (\<lambda>r. content (h' r))) (groupSimilarResponses h' rs')"
    if "map (\<lambda>r. content (h r)) rs = map (\<lambda>r. content (h' r)) rs'"
    using that by (simp add: groups_contents)
  have maj: "map_sum id (map (\<lambda>r. content (h r))) (largestGroup h rs)
           = map_sum id (map (\<lambda>r. content (h' r))) (largestGroup h' rs')"
    if "map (\<lambda>r. content (h r)) rs = map (\<lambda>r. content (h' r)) rs'"
    unfolding largestGroup_def reduce1_longest_map det[OF that] ..
  show ?thesis
    using groupSimilarResponses_absorb[of h rs] groups_mset[of h rs] groups_nonempty[of h rs]
      groups_disjoint[of _ _ h rs] det maj
    by blast
qed

theorem grouping_partitions_witness:
  "groupSimilarResponses H3 [0, 1, 2] = [[0, 1], [2]]
   \<and> mset (concat (groupSimilarResponses H3 [0, 1, 2])) = mset [0, 1, 2]
   \<and> set (groupSimilarResponses H3 [0, 1, 2] ! 0) \<inter> set (groupSimilarResponses H3 [0, 1, 2] ! 1) = {}
   \<and> map (map (\<lambda>r. content (H3 r))) (groupSimilarResponses H3 [0, 1, 2])
        = map (map (\<lambda>r. content (H3' r))) (groupSimilarResponses H3' [1, 2, 3])
   \<and> map_sum id (map (\<lambda>r. content (H3 r))) (largestGroup H3 [0, 1, 2])
        = map_sum id (map (\<lambda>r. content (H3' r))) (largestGroup H3' [1, 2, 3])"
proof -
  have sim: "areSimilar H3 0 1" "\<not> areSimilar H3 0 2" "\<not> areSimilar H3 1 2"
    by code_simp+
  have same: "map (\<lambda>r. content (H3 r)) [0, 1, 2] = map (\<lambda>r. content (H3' r)) [1, 2, 3]"
    by (simp add: H3_def H3'_def)
  note t = grouping_partitions[of H3 "[0, 1, 2]" H3' "[1, 2, 3]"]
  have g: "groupSimilarResponses H3 [0, 1, 2] = [[0, 1], [2]]"
    using t sim by simp
  from t have m: "mset (concat (groupSimilarResponses H3 [0, 1, 2])) = mset [0, 1, 2]"
    by blast
  from t have "\<forall>i j. i < j \<and> j < length (groupSimilarResponses H3 [0, 1, 2]) \<longrightarrow>
         set (groupSimilarResponses H3 [0, 1, 2] ! i) \<inter> set (groupSimilarResponses H3 [0, 1, 2] ! j) = {}"
    by blast
  moreover have "(0::nat) < 1 \<and> 1 < length (groupSimilarResponses H3 [0, 1, 2])"
    unfolding g by simp
  ultimately have d: "set (groupSimilarResponses H3 [0, 1, 2] ! 0)
      \<inter> set (groupSimilarResponses H3 [0, 1, 2] ! 1) = {}"
    by blast
  from t same have c: "map (map (\<lambda>r. content (H3 r))) (groupSimilarResponses H3 [0, 1, 2])
        = map (map (\<lambda>r. content (H3' r))) (groupSimilarResponses H3' [1, 2, 3])
   \<and> map_sum id (map (\<lambda>r. content (H3 r))) (largestGroup H3 [0, 1, 2])
        = map_sum id (map (\<lambda>r. content (H3' r))) (largestGroup H3' [1, 2, 3])"
    by blast
  from g m d c show ?thesis by blast
qed

section \<open>The majority group\<close>

lemma largestGroup_first_longest:
  assumes "rs \<noteq> []"
  shows "\<exists>m k. largestGroup h rs = Inr m
           \<and> k < length (groupSimilarResponses h rs)
           \<and> groupSimilarResponses h rs ! k = m
           \<and> (\<forall>j < length (groupSimilarResponses h rs).
                 length (groupSimilarResponses h rs ! j) \<le> length m)
           \<and> (\<forall>j < k. length (groupSimilarResponses h rs ! j) < length m)"
proof -
  from groups_exist[OF assms, of h] obtain x rest where
    gs: "groupSimilarResponses h rs = x # rest" by (cases "groupSimilarResponses h rs") auto
  have l: "largestGroup h rs = Inr (foldl (\<lambda>mx grp. if length grp > length mx then grp else mx) x rest)"
    by (simp add: largestGroup_def reduce1_def gs)
  from foldl_longest[of x rest] show ?thesis
    unfolding l gs by blast
qed

lemma filter_concat_disjoint:
  "(\<And>g. g \<in> set L \<Longrightarrow> set g \<inter> S = {}) \<Longrightarrow> filter (\<lambda>r. r \<in> S) (concat L) = []"
proof (induction L)
  case Nil
  show ?case by simp
next
  case (Cons g L)
  have "set g \<inter> S = {}" using Cons.prems by simp
  then have "filter (\<lambda>r. r \<in> S) g = []"
    by (auto simp: filter_empty_conv)
  moreover have "filter (\<lambda>r. r \<in> S) (concat L) = []"
    using Cons by simp
  ultimately show ?case by simp
qed

lemma filter_own_group:
  assumes k: "k < length (groupSimilarResponses h rs)"
  shows "mset (filter (\<lambda>r. r \<in> set (groupSimilarResponses h rs ! k)) rs)
         = mset (groupSimilarResponses h rs ! k)"
proof -
  let ?gs = "groupSimilarResponses h rs"
  let ?S = "set (?gs ! k)"
  have before: "set g \<inter> ?S = {}" if "g \<in> set (take k ?gs)" for g
  proof -
    from that obtain j where j: "j < k" "g = ?gs ! j"
      using k by (auto simp: in_set_conv_nth)
    then show ?thesis using groups_disjoint[of j k h rs] k by simp
  qed
  have after: "set g \<inter> ?S = {}" if "g \<in> set (drop (Suc k) ?gs)" for g
  proof -
    from that obtain j where j: "j < length ?gs - Suc k" "g = ?gs ! (Suc k + j)"
      by (auto simp: in_set_conv_nth)
    then have "k < Suc k + j" "Suc k + j < length ?gs" by simp_all
    from groups_disjoint[OF this] show ?thesis using j by blast
  qed
  have split: "concat ?gs = concat (take k ?gs) @ ?gs ! k @ concat (drop (Suc k) ?gs)"
    using id_take_nth_drop[OF k] by (metis concat.simps(2) concat_append)
  have "mset (filter (\<lambda>r. r \<in> ?S) rs) = filter_mset (\<lambda>r. r \<in> ?S) (mset (concat ?gs))"
    by (simp add: groups_mset)
  also have "\<dots> = mset (filter (\<lambda>r. r \<in> ?S) (concat ?gs))"
    by simp
  also have "filter (\<lambda>r. r \<in> ?S) (concat ?gs) = ?gs ! k"
    unfolding split filter_append
    using filter_concat_disjoint[of "take k ?gs" ?S, OF before]
      filter_concat_disjoint[of "drop (Suc k) ?gs" ?S, OF after]
    by simp
  finally show ?thesis .
qed

lemma dissenting_complement:
  assumes k: "k < length (groupSimilarResponses h rs)"
      and m: "m = groupSimilarResponses h rs ! k"
  shows "mset (filter (\<lambda>r. r \<notin> set m) rs) + mset m = mset rs"
proof -
  have own: "mset (filter (\<lambda>r. r \<in> set m) rs) = mset m"
    unfolding m by (rule filter_own_group[OF k])
  have "mset (filter (\<lambda>r. r \<notin> set m) rs) + mset (filter (\<lambda>r. r \<in> set m) rs) = mset rs"
    unfolding mset_filter by (subst add.commute) (rule multiset_partition[symmetric])
  then show ?thesis unfolding own .
qed

section \<open>Settled fan-outs\<close>

lemma first_rejected_in:
  "R \<noteq> [] \<Longrightarrow> (if x \<in> set R then x else hd R) \<in> set R"
  by simp

lemma Promise_all_resolved:
  assumes "\<And>p. p \<in> set ps \<Longrightarrow> \<not> isl p"
  shows "Promise_all first ps = Inr (map projr ps)"
proof -
  have "filter (\<lambda>i. isl (ps ! i)) [0..<length ps] = []"
    using assms by (auto simp: filter_empty_conv)
  then show ?thesis by (simp add: Promise_all_def)
qed

lemma Promise_all_Inr:
  assumes "Promise_all first ps = Inr vs"
  shows "ps = map Inr vs"
proof -
  let ?rej = "filter (\<lambda>i. isl (ps ! i)) [0..<length ps]"
  have e: "?rej = []"
    using assms by (auto simp: Promise_all_def Let_def split: if_splits)
  have vs: "vs = map projr ps"
    using assms e by (simp add: Promise_all_def)
  have "\<not> isl p" if "p \<in> set ps" for p
  proof -
    from that obtain i where "i < length ps" "p = ps ! i" by (auto simp: in_set_conv_nth)
    with e show ?thesis by (auto simp: filter_empty_conv)
  qed
  then have "map Inr (map projr ps) = ps"
    by (induction ps) (auto simp: isl_def)
  then show ?thesis by (simp add: vs)
qed

lemma Promise_all_Inl:
  assumes "Promise_all first ps = Inl e"
  shows "Inl e \<in> set ps"
proof -
  let ?rej = "filter (\<lambda>i. isl (ps ! i)) [0..<length ps]"
  let ?i = "if first ?rej \<in> set ?rej then first ?rej else hd ?rej"
  have ne: "?rej \<noteq> []" and e: "e = projl (ps ! ?i)"
    using assms by (auto simp: Promise_all_def Let_def split: if_splits)
  have "?i \<in> set ?rej" using ne by (rule first_rejected_in)
  then have "?i < length ps" "isl (ps ! ?i)" by auto
  then have "ps ! ?i = Inl e" "ps ! ?i \<in> set ps" using e by (auto simp: isl_def)
  then show ?thesis by simp
qed

lemma Promise_all_rejected:
  assumes "p \<in> set ps" "isl p"
  shows "\<exists>e. Promise_all first ps = Inl e"
proof -
  from assms obtain i where "i < length ps" "isl (ps ! i)" by (auto simp: in_set_conv_nth)
  then have "i \<in> set (filter (\<lambda>i. isl (ps ! i)) [0..<length ps])" by simp
  then have "filter (\<lambda>i. isl (ps ! i)) [0..<length ps] \<noteq> []" by (metis empty_iff empty_set)
  then show ?thesis by (simp add: Promise_all_def Let_def)
qed

section \<open>The consensus result\<close>

lemma calculateConsensus_result:
  assumes "rs \<noteq> []"
  shows "\<exists>c m k r rest. calculateConsensus h rs mode = Inr c
       \<and> largestGroup h rs = Inr m
       \<and> k < length (groupSimilarResponses h rs) \<and> groupSimilarResponses h rs ! k = m
       \<and> m = r # rest
       \<and> c = \<lparr>result = content (h r),
               confidence = calculateConfidence m rs,
               agreement = real (length m) / real (length rs),
               dissenting = (if filter (\<lambda>r. r \<notin> set m) rs = [] then None
                             else Some (filter (\<lambda>r. r \<notin> set m) rs))\<rparr>"
proof -
  from largestGroup_first_longest[OF assms, of h] obtain m k where
    l: "largestGroup h rs = Inr m" and k: "k < length (groupSimilarResponses h rs)"
    and m: "groupSimilarResponses h rs ! k = m" by blast
  have "m \<in> set (groupSimilarResponses h rs)" using k m by auto
  then have "m \<noteq> []" using groups_nonempty[of h rs] by auto
  then obtain r rest where mr: "m = r # rest" by (cases m) auto
  have "calculateConsensus h rs mode = Inr \<lparr>result = content (h r),
               confidence = calculateConfidence m rs,
               agreement = real (length m) / real (length rs),
               dissenting = (if filter (\<lambda>r. r \<notin> set m) rs = [] then None
                             else Some (filter (\<lambda>r. r \<notin> set m) rs))\<rparr>"
    unfolding calculateConsensus_def l
    by (simp add: Let_def synthesizeResponse_def mr)
  with l k m mr show ?thesis by blast
qed

lemma calculateConsensus_single:
  "calculateConsensus h [r] mode
   = Inr \<lparr>result = content (h r), confidence = 1, agreement = 1, dissenting = None\<rparr>"
proof -
  have g: "groupSimilarResponses h [r] = [[r]]"
    by (simp add: groupSimilarResponses_absorb)
  have l: "largestGroup h [r] = Inr [r]"
    by (simp add: largestGroup_def g reduce1_def)
  show ?thesis
    by (simp add: calculateConsensus_def l Let_def synthesizeResponse_def calculateConfidence_def)
qed

lemma calculateConsensus_mode: "calculateConsensus h rs mode = calculateConsensus h rs mode'"
  by (simp add: calculateConsensus_def)

lemma getResponses_length:
  "getResponses first reg prompt names = Inr responses \<Longrightarrow> length responses = length names"
proof -
  assume "getResponses first reg prompt names = Inr responses"
  then have "map (provider_call reg prompt) names = map Inr responses"
    unfolding getResponses_def by (rule Promise_all_Inr)
  then have "length names = length responses" by (rule map_eq_imp_length_eq)
  then show ?thesis by simp
qed

lemma buildConsensus_Inr:
  assumes "buildConsensus first reg prompt options = Inr res"
  shows "\<exists>responses c. responses \<noteq> [] \<and> length responses = length (providers res)
       \<and> providers res = consensus_providerNames reg options
       \<and> getResponses first reg prompt (providers res) = Inr responses
       \<and> calculateConsensus ((!) responses) [0..<length responses] mode = Inr c
       \<and> result res = result c \<and> confidence res = confidence c
       \<and> agreement res = agreement c \<and> dissenting res = dissenting c"
proof -
  define names where "names = consensus_providerNames reg options"
  define md where "md = (case Option.bind options co_mode of Some m \<Rightarrow> m | None \<Rightarrow> democratic)"
  have unf: "buildConsensus first reg prompt options =
     (if length names = 0 then Inl (Error ''No providers available for consensus'')
      else (case getResponses first reg prompt names of
              Inl e \<Rightarrow> Inl e
            | Inr responses \<Rightarrow>
                (case calculateConsensus ((!) responses) [0..<length responses] md of
                   Inl e \<Rightarrow> Inl e
                 | Inr c \<Rightarrow>
                     Inr \<lparr>result = result c, confidence = confidence c,
                          agreement = agreement c, dissenting = dissenting c,
                          providers = names,
                          metadata = \<lparr>md_rounds = 1,
                             totalCost = foldl (\<lambda>sum r. sum + (case cost r of Some c \<Rightarrow> c | None \<Rightarrow> 0))
                                           0 responses\<rparr>\<rparr>)))"
    unfolding buildConsensus_def names_def md_def Let_def ..
  have ne: "names \<noteq> []"
  proof
    assume "names = []"
    with assms unf show False by simp
  qed
  obtain responses where gr: "getResponses first reg prompt names = Inr responses"
  proof (cases "getResponses first reg prompt names")
    case (Inl e)
    with assms unf ne show ?thesis by simp
  next
    case (Inr responses)
    then show ?thesis by (rule that)
  qed
  obtain c where cc: "calculateConsensus ((!) responses) [0..<length responses] md = Inr c"
  proof (cases "calculateConsensus ((!) responses) [0..<length responses] md")
    case (Inl e)
    with assms unf ne gr show ?thesis by simp
  next
    case (Inr c)
    then show ?thesis by (rule that)
  qed
  have res: "res = \<lparr>result = result c, confidence = confidence c,
                     agreement = agreement c, dissenting = dissenting c,
                     providers = names,
                     metadata = \<lparr>md_rounds = 1,
                        totalCost = foldl (\<lambda>sum r. sum + (case cost r of Some c \<Rightarrow> c | None \<Rightarrow> 0))
                                      0 responses\<rparr>\<rparr>"
    using assms unf ne gr cc by simp
  have len: "length responses = length names" using gr by (rule getResponses_length)
  then have rne: "responses \<noteq> []" using ne by auto
  have cm: "calculateConsensus ((!) responses) [0..<length responses] mode = Inr c"
    using cc calculateConsensus_mode[of _ _ mode md] by simp
  have pr: "providers res = names" by (simp add: res)
  show ?thesis
    unfolding names_def[symmetric] pr
    using rne len gr cm by (intro exI[of _ responses] exI[of _ c]) (simp add: res)
qed

lemma buildConsensus_solo:
  assumes names: "consensus_providerNames reg options = [n]"
      and p: "registry_get n reg = Some p"
      and r: "p_complete p prompt None = Inr resp"
  shows "\<exists>res. buildConsensus first reg prompt options = Inr res
       \<and> agreement res = 1 \<and> confidence res = 1 \<and> dissenting res = None
       \<and> result res = content resp"
proof -
  have gr: "getResponses first reg prompt [n] = Inr [resp]"
    unfolding getResponses_def by (simp add: provider_call_def p r Promise_all_def)
  show ?thesis
    unfolding buildConsensus_def names Let_def
    by (simp add: gr calculateConsensus_single)
qed

section \<open>The consensus result: the claims\<close>

text \<open>
  Claim C1. For a non-empty list of responses \<^verbatim>\<open>calculateConsensus\<close> returns a result
  whose agreement is the size of the majority group over the number of responses and
  lies in \<open>(0, 1]\<close>; whose confidence is the agreement, times \<open>1.2\<close> and capped at 1
  exactly when the majority group has as many members as there are responses (and is
  then 1); and whose dissenting field holds the responses outside the majority group,
  in input order, or is absent when there are none; the dissenting responses and the
  majority group together are the input. A result of \<^verbatim>\<open>buildConsensus\<close> carries these
  fields for the non-empty list of responses of its fan-out, and a consensus over one
  provider has agreement 1, confidence 1 and no dissenting responses.
\<close>

theorem consensus_scores:
  "(rs \<noteq> [] \<longrightarrow>
      (\<exists>c m. calculateConsensus h rs mode = Inr c \<and> largestGroup h rs = Inr m
         \<and> agreement c = real (length m) / real (length rs)
         \<and> 0 < agreement c \<and> agreement c \<le> 1
         \<and> confidence c = (if length m = length rs then min 1 (agreement c * 1.2) else agreement c)
         \<and> (length m = length rs \<longrightarrow> confidence c = 1)
         \<and> dissenting c = (if filter (\<lambda>r. r \<notin> set m) rs = [] then None
                            else Some (filter (\<lambda>r. r \<notin> set m) rs))
         \<and> mset (filter (\<lambda>r. r \<notin> set m) rs) + mset m = mset rs))
   \<and> calculateConsensus h [r] mode
        = Inr \<lparr>result = content (h r), confidence = 1, agreement = 1, dissenting = None\<rparr>
   \<and> (buildConsensus first reg prompt options = Inr res \<longrightarrow>
        (\<exists>responses c. responses \<noteq> [] \<and> length responses = length (providers res)
           \<and> getResponses first reg prompt (providers res) = Inr responses
           \<and> calculateConsensus ((!) responses) [0..<length responses] mode = Inr c
           \<and> result res = result c \<and> confidence res = confidence c
           \<and> agreement res = agreement c \<and> dissenting res = dissenting c))
   \<and> (consensus_providerNames reg options = [n]
        \<and> registry_get n reg = Some p \<and> p_complete p prompt None = Inr resp \<longrightarrow>
        (\<exists>res'. buildConsensus first reg prompt options = Inr res'
           \<and> agreement res' = 1 \<and> confidence res' = 1 \<and> dissenting res' = None
           \<and> result res' = content resp))"
proof -
  have 1: "\<exists>c m. calculateConsensus h rs mode = Inr c \<and> largestGroup h rs = Inr m
         \<and> agreement c = real (length m) / real (length rs)
         \<and> 0 < agreement c \<and> agreement c \<le> 1
         \<and> confidence c = (if length m = length rs then min 1 (agreement c * 1.2) else agreement c)
         \<and> (length m = length rs \<longrightarrow> confidence c = 1)
         \<and> dissenting c = (if filter (\<lambda>r. r \<notin> set m) rs = [] then None
                            else Some (filter (\<lambda>r. r \<notin> set m) rs))
         \<and> mset (filter (\<lambda>r. r \<notin> set m) rs) + mset m = mset rs" if ne: "rs \<noteq> []"
  proof -
    from calculateConsensus_result[OF ne, of h mode] obtain c m k r rest where
      cc: "calculateConsensus h rs mode = Inr c" and l: "largestGroup h rs = Inr m"
      and k: "k < length (groupSimilarResponses h rs)" and m: "groupSimilarResponses h rs ! k = m"
      and mr: "m = r # rest"
      and c: "c = \<lparr>result = content (h r),
               confidence = calculateConfidence m rs,
               agreement = real (length m) / real (length rs),
               dissenting = (if filter (\<lambda>r. r \<notin> set m) rs = [] then None
                             else Some (filter (\<lambda>r. r \<notin> set m) rs))\<rparr>"
      by blast
    have part: "mset (filter (\<lambda>r. r \<notin> set m) rs) + mset m = mset rs"
      using dissenting_complement[OF k m[symmetric]] .
    then have "size (mset (filter (\<lambda>r. r \<notin> set m) rs) + mset m) = size (mset rs)"
      by simp
    then have len: "length (filter (\<lambda>r. r \<notin> set m) rs) + length m = length rs"
      by (simp only: size_union size_mset)
    have mpos: "0 < length m" using mr by simp
    have rpos: "0 < length rs" using ne by simp
    have a: "agreement c = real (length m) / real (length rs)" by (simp add: c)
    have apos: "0 < agreement c" unfolding a using mpos rpos by simp
    have ale: "agreement c \<le> 1" unfolding a using len rpos by (simp add: divide_le_eq_1)
    have conf: "confidence c = (if length m = length rs then min 1 (agreement c * 1.2) else agreement c)"
      by (simp add: c calculateConfidence_def Let_def)
    have una: "confidence c = 1" if "length m = length rs"
      using that rpos by (simp add: conf a)
    have dis: "dissenting c = (if filter (\<lambda>r. r \<notin> set m) rs = [] then None
                            else Some (filter (\<lambda>r. r \<notin> set m) rs))"
      by (simp add: c)
    from cc l a apos ale conf una dis part show ?thesis by blast
  qed
  have 3: "\<exists>responses c. responses \<noteq> [] \<and> length responses = length (providers res)
           \<and> getResponses first reg prompt (providers res) = Inr responses
           \<and> calculateConsensus ((!) responses) [0..<length responses] mode = Inr c
           \<and> result res = result c \<and> confidence res = confidence c
           \<and> agreement res = agreement c \<and> dissenting res = dissenting c"
    if "buildConsensus first reg prompt options = Inr res"
    using buildConsensus_Inr[OF that, of mode] by blast
  have 4: "\<exists>res'. buildConsensus first reg prompt options = Inr res'
           \<and> agreement res' = 1 \<and> confidence res' = 1 \<and> dissenting res' = None
           \<and> result res' = content resp"
    if "consensus_providerNames reg options = [n]"
       "registry_get n reg = Some p" "p_complete p prompt None = Inr resp"
    using buildConsensus_solo[OF that] .
  from 1 calculateConsensus_single[of h r mode] 3 4 show ?thesis by blast
qed

theorem consensus_scores_witness:
  "(\<exists>c m. calculateConsensus H3 [0, 1, 2] democratic = Inr c \<and> largestGroup H3 [0, 1, 2] = Inr m
      \<and> agreement c = real (length m) / real (length [0::nat, 1, 2])
      \<and> 0 < agreement c \<and> agreement c \<le> 1)
   \<and> (\<exists>res'. buildConsensus hd solo ''Which database?'' None = Inr res'
         \<and> agreement res' = 1 \<and> confidence res' = 1 \<and> dissenting res' = None)"
proof -
  have ne: "[0::nat, 1, 2] \<noteq> []" by simp
  have names: "consensus_providerNames solo None
               = [''openai'']"
    by (simp add: consensus_providerNames_def solo_def registry_list_def registry_register_def)
  have p: "registry_get ''openai'' solo = Some (createProvider ''openai'' cfg0)"
    by (simp add: solo_def registry_get_def registry_register_def)
  obtain resp where r: "p_complete (createProvider ''openai'' cfg0) ''Which database?'' None = Inr resp"
    by (simp add: createProvider_def)
  note t = consensus_scores[of "[0, 1, 2]" H3 democratic _ hd solo "''Which database?''" None _
              "''openai''" "createProvider ''openai'' cfg0" resp]
  from t ne have "\<exists>c m. calculateConsensus H3 [0, 1, 2] democratic = Inr c \<and> largestGroup H3 [0, 1, 2] = Inr m
      \<and> agreement c = real (length m) / real (length [0::nat, 1, 2])
      \<and> 0 < agreement c \<and> agreement c \<le> 1"
    by blast
  moreover from t names p r have "\<exists>res'. buildConsensus hd solo ''Which database?'' None = Inr res'
         \<and> agreement res' = 1 \<and> confidence res' = 1 \<and> dissenting res' = None"
    by blast
  ultimately show ?thesis by blast
qed

text \<open>
  Claim C2. For a non-empty list of responses the majority group is a group of
  largest size, and the first such group in the order in which the grouping produced
  them; the result text is the content of the first response of that group. For the
  answers \<open>Use Postgres\<close>, \<open>Use Postgres\<close>, \<open>Use MongoDB\<close> the majority group
  is the first two, the agreement is \<open>2/3\<close> and the third answer alone dissents.
\<close>

theorem majority_first_largest:
  "(rs \<noteq> [] \<longrightarrow>
      (\<exists>m k c r rest. largestGroup h rs = Inr m
         \<and> k < length (groupSimilarResponses h rs) \<and> groupSimilarResponses h rs ! k = m
         \<and> (\<forall>j < length (groupSimilarResponses h rs).
               length (groupSimilarResponses h rs ! j) \<le> length m)
         \<and> (\<forall>j < k. length (groupSimilarResponses h rs ! j) < length m)
         \<and> calculateConsensus h rs mode = Inr c
         \<and> m = r # rest \<and> result c = content (h r)))
   \<and> (content (h a) = ''Use Postgres'' \<and> content (h b) = ''Use Postgres''
        \<and> content (h d) = ''Use MongoDB'' \<longrightarrow>
        groupSimilarResponses h [a, b, d] = [[a, b], [d]]
      \<and> largestGroup h [a, b, d] = Inr [a, b]
      \<and> calculateConsensus h [a, b, d] mode
          = Inr \<lparr>result = ''Use Postgres'', confidence = 2 / 3, agreement = 2 / 3,
                 dissenting = Some [d]\<rparr>)"
proof -
  have 1: "\<exists>m k c r rest. largestGroup h rs = Inr m
         \<and> k < length (groupSimilarResponses h rs) \<and> groupSimilarResponses h rs ! k = m
         \<and> (\<forall>j < length (groupSimilarResponses h rs).
               length (groupSimilarResponses h rs ! j) \<le> length m)
         \<and> (\<forall>j < k. length (groupSimilarResponses h rs ! j) < length m)
         \<and> calculateConsensus h rs mode = Inr c
         \<and> m = r # rest \<and> result c = content (h r)" if ne: "rs \<noteq> []"
  proof -
    from largestGroup_first_longest[OF ne, of h] obtain m k where
      l: "largestGroup h rs = Inr m" and k: "k < length (groupSimilarResponses h rs)"
      and m: "groupSimilarResponses h rs ! k = m"
      and mx: "\<forall>j < length (groupSimilarResponses h rs).
               length (groupSimilarResponses h rs ! j) \<le> length m"
      and fst: "\<forall>j < k. length (groupSimilarResponses h rs ! j) < length m" by blast
    from calculateConsensus_result[OF ne, of h mode] l obtain c r rest where
      "calculateConsensus h rs mode = Inr c" "m = r # rest" "result c = content (h r)"
      by force
    with l k m mx fst show ?thesis by blast
  qed
  have 2: "groupSimilarResponses h [a, b, d] = [[a, b], [d]]
      \<and> largestGroup h [a, b, d] = Inr [a, b]
      \<and> calculateConsensus h [a, b, d] mode
          = Inr \<lparr>result = ''Use Postgres'', confidence = 2 / 3, agreement = 2 / 3,
                 dissenting = Some [d]\<rparr>"
    if ca: "content (h a) = ''Use Postgres''" and cb: "content (h b) = ''Use Postgres''"
      and cd: "content (h d) = ''Use MongoDB''"
  proof -
    have s1: "calculateSimilarity (toLowerCase ''Use Postgres'') (toLowerCase ''Use Postgres'') > 0.6"
      by code_simp
    have s2: "\<not> calculateSimilarity (toLowerCase ''Use Postgres'') (toLowerCase ''Use MongoDB'') > 0.6"
      by code_simp
    have ab: "areSimilar h a b" and ad: "\<not> areSimilar h a d" and bd: "\<not> areSimilar h b d"
      using s1 s2 by (simp_all add: areSimilar_def similarity_calculateSimilarity ca cb cd)
    have g: "groupSimilarResponses h [a, b, d] = [[a, b], [d]]"
      by (simp add: groupSimilarResponses_absorb ab ad)
    have l: "largestGroup h [a, b, d] = Inr [a, b]"
      by (simp add: largestGroup_def g reduce1_def)
    have ne: "d \<noteq> a" "d \<noteq> b" using ca cb cd by auto
    have "calculateConsensus h [a, b, d] mode
          = Inr \<lparr>result = ''Use Postgres'', confidence = 2 / 3, agreement = 2 / 3,
                 dissenting = Some [d]\<rparr>"
      unfolding calculateConsensus_def l
      by (simp add: Let_def synthesizeResponse_def calculateConfidence_def ne ca)
    with g l show ?thesis by blast
  qed
  from 1 2 show ?thesis by blast
qed

theorem majority_first_largest_witness:
  "(\<exists>m k. largestGroup H3' [3, 1, 2] = Inr m
      \<and> k < length (groupSimilarResponses H3' [3, 1, 2])
      \<and> groupSimilarResponses H3' [3, 1, 2] ! k = m)
   \<and> largestGroup P3 [0, 1, 2] = Inr [0, 1]
   \<and> calculateConsensus P3 [0, 1, 2] democratic
        = Inr \<lparr>result = ''Use Postgres'', confidence = 2 / 3, agreement = 2 / 3,
               dissenting = Some [2]\<rparr>
   \<and> content (P3 2) = ''Use MongoDB''"
proof -
  have ne: "[3::nat, 1, 2] \<noteq> []" by simp
  have c: "content (P3 0) = ''Use Postgres''" "content (P3 1) = ''Use Postgres''"
    "content (P3 2) = ''Use MongoDB''"
    by (simp_all add: P3_def)
  note t = majority_first_largest[of "[3, 1, 2]" H3' democratic]
  note t' = majority_first_largest[of _ P3 democratic 0 1 2]
  from t ne have "\<exists>m k. largestGroup H3' [3, 1, 2] = Inr m
      \<and> k < length (groupSimilarResponses H3' [3, 1, 2])
      \<and> groupSimilarResponses H3' [3, 1, 2] ! k = m"
    by blast
  moreover from t' c have "largestGroup P3 [0, 1, 2] = Inr [0, 1]
   \<and> calculateConsensus P3 [0, 1, 2] democratic
        = Inr \<lparr>result = ''Use Postgres'', confidence = 2 / 3, agreement = 2 / 3,
               dissenting = Some [2]\<rparr>"
    by blast
  ultimately show ?thesis using c(3) by blast
qed

section \<open>Failures of the consensus call\<close>

lemma Promise_all_single_rejection:
  assumes i: "i < length ps" and e: "ps ! i = Inl e"
      and others: "\<And>j. j < length ps \<Longrightarrow> j \<noteq> i \<Longrightarrow> \<not> isl (ps ! j)"
  shows "Promise_all first ps = Inl e"
proof -
  have "ps ! i \<in> set ps" using i by simp
  moreover have "isl (ps ! i)" using e by simp
  ultimately obtain e' where r: "Promise_all first ps = Inl e'"
    using Promise_all_rejected by blast
  from Promise_all_Inl[OF r] obtain j where j: "j < length ps" "ps ! j = Inl e'"
    by (auto simp: in_set_conv_nth)
  have "j = i"
  proof (rule ccontr)
    assume "j \<noteq> i"
    from others[OF j(1) this] j(2) show False by simp
  qed
  with j e r show ?thesis by simp
qed

lemma buildConsensus_unfold:
  "buildConsensus first reg prompt options =
     (if consensus_providerNames reg options = []
      then Inl (Error ''No providers available for consensus'')
      else (case getResponses first reg prompt (consensus_providerNames reg options) of
              Inl e \<Rightarrow> Inl e
            | Inr responses \<Rightarrow>
                (case calculateConsensus ((!) responses) [0..<length responses]
                        (case Option.bind options co_mode of Some m \<Rightarrow> m | None \<Rightarrow> democratic) of
                   Inl e \<Rightarrow> Inl e
                 | Inr c \<Rightarrow>
                     Inr \<lparr>result = result c, confidence = confidence c,
                          agreement = agreement c, dissenting = dissenting c,
                          providers = consensus_providerNames reg options,
                          metadata = \<lparr>md_rounds = 1,
                             totalCost = foldl (\<lambda>sum r. sum + (case cost r of Some c \<Rightarrow> c | None \<Rightarrow> 0))
                                           0 responses\<rparr>\<rparr>)))"
  unfolding buildConsensus_def Let_def by simp

lemma buildConsensus_Inl:
  assumes ne: "consensus_providerNames reg options \<noteq> []"
  shows "buildConsensus first reg prompt options = Inl e
         \<longleftrightarrow> getResponses first reg prompt (consensus_providerNames reg options) = Inl e"
proof (cases "getResponses first reg prompt (consensus_providerNames reg options)")
  case (Inl e')
  then show ?thesis using ne by (simp add: buildConsensus_unfold)
next
  case (Inr responses)
  have "length responses = length (consensus_providerNames reg options)"
    using Inr by (rule getResponses_length)
  then have "[0..<length responses] \<noteq> []" using ne by auto
  from calculateConsensus_result[OF this] obtain c where
    "calculateConsensus ((!) responses) [0..<length responses]
        (case Option.bind options co_mode of Some m \<Rightarrow> m | None \<Rightarrow> democratic) = Inr c"
    by blast
  then show ?thesis using ne Inr by (simp add: buildConsensus_unfold)
qed

text \<open>
  Claim C8 says that a rejected provider call makes the consensus call reject with an
  error of its own kind that names the provider. The engine passes the rejection on
  as it is: when \<open>b\<close> rejects in one registry and \<open>c\<close> in another, both for the
  reason \<open>boom\<close>, the two consensus calls reject with the same value, which can
  therefore name neither provider.
\<close>

theorem rejection_names_no_provider:
  "buildConsensus hd trio_b ''Which database?'' None = Inl (Error ''boom'')
   \<and> buildConsensus hd trio_c ''Which database?'' None = Inl (Error ''boom'')"
  by code_simp

text \<open>
  Claim C8, amended. With an empty resolved provider set \<^verbatim>\<open>buildConsensus\<close> fails with
  the error \<open>No providers available for consensus\<close>. With a non-empty one it fails as
  soon as the call of one resolved name is rejected, and only then; there is no
  partial result; the error is the reason of one of the rejected calls, unchanged:
  what the provider's \<^verbatim>\<open>complete\<close> rejected with, or \<open>Provider n not found\<close> for a
  name \<open>n\<close> that is not registered. When exactly one call is rejected, its reason is
  the error.
\<close>

theorem buildConsensus_failures:
  "(consensus_providerNames reg options = [] \<longrightarrow>
      buildConsensus first reg prompt options = Inl (Error ''No providers available for consensus''))
   \<and> (consensus_providerNames reg options \<noteq> [] \<longrightarrow>
        ((\<exists>e. buildConsensus first reg prompt options = Inl e)
           \<longleftrightarrow> (\<exists>n\<in>set (consensus_providerNames reg options). isl (provider_call reg prompt n)))
      \<and> (\<forall>e. buildConsensus first reg prompt options = Inl e \<longrightarrow>
            (\<exists>n\<in>set (consensus_providerNames reg options). provider_call reg prompt n = Inl e))
      \<and> (\<forall>i e. i < length (consensus_providerNames reg options)
              \<and> provider_call reg prompt (consensus_providerNames reg options ! i) = Inl e
              \<and> (\<forall>j < length (consensus_providerNames reg options).
                    j \<noteq> i \<longrightarrow> \<not> isl (provider_call reg prompt (consensus_providerNames reg options ! j)))
            \<longrightarrow> buildConsensus first reg prompt options = Inl e))
   \<and> (provider_call reg prompt n = Inl e \<longrightarrow>
        (registry_get n reg = None \<and> e = Error (''Provider '' @ n @ '' not found''))
      \<or> (\<exists>p. registry_get n reg = Some p \<and> p_complete p prompt None = Inl e))"
proof -
  let ?names = "consensus_providerNames reg options"
  let ?ps = "map (provider_call reg prompt) ?names"
  have 1: "buildConsensus first reg prompt options = Inl (Error ''No providers available for consensus'')"
    if "?names = []"
    using that by (simp add: buildConsensus_unfold)
  have 2: "(\<exists>e. buildConsensus first reg prompt options = Inl e)
           \<longleftrightarrow> (\<exists>n\<in>set ?names. isl (provider_call reg prompt n))" if ne: "?names \<noteq> []"
  proof
    assume "\<exists>e. buildConsensus first reg prompt options = Inl e"
    then obtain e where "getResponses first reg prompt ?names = Inl e"
      using buildConsensus_Inl[OF ne] by blast
    then have "Inl e \<in> set ?ps"
      unfolding getResponses_def by (rule Promise_all_Inl)
    then obtain n where "n \<in> set ?names" "provider_call reg prompt n = Inl e" by auto
    then show "\<exists>n\<in>set ?names. isl (provider_call reg prompt n)" by force
  next
    assume "\<exists>n\<in>set ?names. isl (provider_call reg prompt n)"
    then obtain n where n: "n \<in> set ?names" "isl (provider_call reg prompt n)" by blast
    then have "provider_call reg prompt n \<in> set ?ps" by simp
    from Promise_all_rejected[OF this n(2)] obtain e where
      "getResponses first reg prompt ?names = Inl e"
      unfolding getResponses_def by blast
    then show "\<exists>e. buildConsensus first reg prompt options = Inl e"
      using buildConsensus_Inl[OF ne] by blast
  qed
  have 3: "\<exists>n\<in>set ?names. provider_call reg prompt n = Inl e"
    if ne: "?names \<noteq> []" and f: "buildConsensus first reg prompt options = Inl e" for e
  proof -
    have "getResponses first reg prompt ?names = Inl e"
      using buildConsensus_Inl[OF ne] f by blast
    then have "Inl e \<in> set ?ps"
      unfolding getResponses_def by (rule Promise_all_Inl)
    then show ?thesis by auto
  qed
  have 4: "buildConsensus first reg prompt options = Inl e"
    if ne: "?names \<noteq> []" and i: "i < length ?names"
      and e: "provider_call reg prompt (?names ! i) = Inl e"
      and o: "\<forall>j < length ?names. j \<noteq> i \<longrightarrow> \<not> isl (provider_call reg prompt (?names ! j))"
    for i e
  proof -
    have "Promise_all first ?ps = Inl e"
    proof (rule Promise_all_single_rejection[of i])
      show "i < length ?ps" using i by simp
      show "?ps ! i = Inl e" using i e by simp
      show "\<not> isl (?ps ! j)" if "j < length ?ps" "j \<noteq> i" for j
        using that o by simp
    qed
    then show ?thesis
      using buildConsensus_Inl[OF ne] by (simp add: getResponses_def)
  qed
  have 5: "(registry_get n reg = None \<and> e = Error (''Provider '' @ n @ '' not found''))
      \<or> (\<exists>p. registry_get n reg = Some p \<and> p_complete p prompt None = Inl e)"
    if "provider_call reg prompt n = Inl e"
    using that by (auto simp: provider_call_def split: option.splits)
  from 1 2 3 4 5 show ?thesis by blast
qed

theorem buildConsensus_failures_witness:
  "buildConsensus hd trio_b ''Which database?'' (Some \<lparr>co_providers = Some [], co_mode = None\<rparr>)
     = Inl (Error ''No providers available for consensus'')
   \<and> buildConsensus hd trio_b ''Which database?'' None = Inl (Error ''boom'')
   \<and> buildConsensus hd trio_b ''Which database?''
        (Some \<lparr>co_providers = Some [''a'', ''zzz''], co_mode = None\<rparr>)
     = Inl (Error ''Provider zzz not found'')
   \<and> registry_get ''zzz'' trio_b = None"
proof -
  let ?q = "''Which database?''"
  let ?none = "Some \<lparr>co_providers = Some [], co_mode = None\<rparr>"
  let ?two = "Some \<lparr>co_providers = Some [''a'', ''zzz''], co_mode = None\<rparr>"
  have n0: "consensus_providerNames trio_b ?none = []"
    by (simp add: consensus_providerNames_def)
  have n3: "consensus_providerNames trio_b None = [''a'', ''b'', ''c'']"
    by (simp add: consensus_providerNames_def registry_list_def trio_b_def)
  have n2: "consensus_providerNames trio_b ?two = [''a'', ''zzz'']"
    by (simp add: consensus_providerNames_def)
  have ca: "provider_call trio_b ?q ''a'' = Inr \<lparr>content = ''yes'', provider = ''a'', cost = None\<rparr>"
    and cb: "provider_call trio_b ?q ''b'' = Inl (Error ''boom'')"
    and cc: "provider_call trio_b ?q ''c'' = Inr \<lparr>content = ''yes'', provider = ''c'', cost = None\<rparr>"
    and cz: "provider_call trio_b ?q ''zzz'' = Inl (Error ''Provider zzz not found'')"
    by (simp_all add: provider_call_def registry_get_def trio_b_def answering_def failing_def)
  have 1: "buildConsensus hd trio_b ?q ?none = Inl (Error ''No providers available for consensus'')"
    using buildConsensus_failures[of trio_b ?none hd ?q] n0 by blast
  have o3: "\<forall>j < length [''a'', ''b'', ''c''].
              j \<noteq> 1 \<longrightarrow> \<not> isl (provider_call trio_b ?q ([''a'', ''b'', ''c''] ! j))"
    using ca cc by (auto simp: less_Suc_eq)
  have 2: "buildConsensus hd trio_b ?q None = Inl (Error ''boom'')"
  proof -
    have "(1::nat) < length [''a'', ''b'', ''c'']
        \<and> provider_call trio_b ?q ([''a'', ''b'', ''c''] ! 1) = Inl (Error ''boom'')"
      using cb by simp
    with o3 show ?thesis
      using buildConsensus_failures[of trio_b None hd ?q] unfolding n3 by blast
  qed
  have o2: "\<forall>j < length [''a'', ''zzz''].
              j \<noteq> 1 \<longrightarrow> \<not> isl (provider_call trio_b ?q ([''a'', ''zzz''] ! j))"
    using ca by (auto simp: less_Suc_eq)
  have 3: "buildConsensus hd trio_b ?q ?two = Inl (Error ''Provider zzz not found'')"
  proof -
    have "(1::nat) < length [''a'', ''zzz'']
        \<and> provider_call trio_b ?q ([''a'', ''zzz''] ! 1) = Inl (Error ''Provider zzz not found'')"
      using cz by simp
    with o2 show ?thesis
      using buildConsensus_failures[of trio_b ?two hd ?q] unfolding n2 by blast
  qed
  have 4: "registry_get ''zzz'' trio_b = None"
    by (simp add: registry_get_def trio_b_def)
  from 1 2 3 4 show ?thesis by blast
qed

section \<open>The health check\<close>






section \<open>Where consensus and debate take their providers from\<close>

lemma registry_list_register:
  "set (registry_list (registry_register name c reg)) = insert name (set (registry_list reg))"
  by (auto simp: registry_list_def registry_register_def update_keys)

lemma registry_get_remove: "registry_get name (registry_remove name reg) = None"
  by (simp add: registry_get_def registry_remove_def delete_conv')

lemma registry_list_remove:
  "set (registry_list (registry_remove name reg)) = set (registry_list reg) - {name}"
  by (simp add: registry_list_def registry_remove_def delete_keys)

lemma consensus_providers:
  assumes "consensus orch first prompt options = Inr res"
  shows "providers res = consensus_providerNames (registry orch) options"
  using buildConsensus_Inr[OF assms[unfolded consensus_def], of democratic] by blast

lemma debate_unfold:
  "debate orch first prompt options =
     (case debate_loop orch first (debate_providers orch options) (debate_threshold orch options)
             (debate_maxRounds orch options)
             \<lparr>l_rounds = [], l_agreement = 0, l_round = 0, l_prompt = prompt\<rparr> of
        (Some e, v) \<Rightarrow> Inl e
      | (None, v) \<Rightarrow>
          (case synthesizeDecision (l_rounds v) of
             Inl e \<Rightarrow> Inl e
           | Inr d \<Rightarrow>
               Inr \<lparr>decision = d, rounds = l_rounds v, debate_agreement = l_agreement v,
                    participants = debate_providers orch options,
                    debate_confidence = l_agreement v\<rparr>))"
  unfolding debate_def Let_def by simp

lemma debate_participants:
  assumes "debate orch first prompt options = Inr res"
  shows "participants res = debate_providers orch options"
  using assms unfolding debate_unfold
  by (auto split: prod.splits option.splits sum.splits)

lemma query_not_found:
  assumes "name \<noteq> []" "registry_get name (registry orch) = None"
  shows "query orch prompt (Some \<lparr>qo_provider = Some name\<rparr>)
         = Inl (Error (''Provider '' @ name @ '' not found''))"
  using assms by (simp add: query_def truthy_string_def)

lemma debate_loop_exit:
  assumes g: "\<not> (l_agreement v < t \<and> int (l_round v) < m)"
  shows "debate_loop orch first provs t m v = (None, v)"
  by (subst debate_loop.simps) (simp only: g if_False)

lemma debate_loop_reject:
  assumes "l_agreement v < t" "int (l_round v) < m"
      and "Promise_all (first (l_round v + 1))
             (map (\<lambda>p. query orch (l_prompt v) (Some \<lparr>qo_provider = Some p\<rparr>)) provs) = Inl e"
  shows "debate_loop orch first provs t m v = (Some e, v\<lparr>l_round := l_round v + 1\<rparr>)"
  by (subst debate_loop.simps) (simp only: assms simp_thms if_True Let_def sum.case)

lemma debate_rejected_participant:
  assumes n: "name \<in> set (debate_providers orch options)"
      and q: "isl (query orch prompt (Some \<lparr>qo_provider = Some name\<rparr>))"
  shows "\<exists>e. debate orch first prompt options = Inl e"
proof -
  define v0 where "v0 = \<lparr>l_rounds = [], l_agreement = 0, l_round = 0, l_prompt = prompt\<rparr>"
  let ?provs = "debate_providers orch options"
  let ?t = "debate_threshold orch options"
  let ?m = "debate_maxRounds orch options"
  have v0: "l_rounds v0 = []" "l_prompt v0 = prompt" by (simp_all add: v0_def)
  show ?thesis
  proof (cases "l_agreement v0 < ?t \<and> int (l_round v0) < ?m")
    case False
    then have "debate_loop orch first ?provs ?t ?m v0 = (None, v0)"
      by (rule debate_loop_exit)
    then show ?thesis
      unfolding debate_unfold v0_def[symmetric] by (simp add: synthesizeDecision_def v0)
  next
    case True
    let ?ps = "map (\<lambda>p. query orch (l_prompt v0) (Some \<lparr>qo_provider = Some p\<rparr>)) ?provs"
    have "query orch (l_prompt v0) (Some \<lparr>qo_provider = Some name\<rparr>) \<in> set ?ps"
      using n unfolding set_map by (rule imageI)
    moreover have "isl (query orch (l_prompt v0) (Some \<lparr>qo_provider = Some name\<rparr>))"
      using q by (simp add: v0)
    ultimately obtain e where e: "Promise_all (first (l_round v0 + 1)) ?ps = Inl e"
      using Promise_all_rejected by blast
    have "debate_loop orch first ?provs ?t ?m v0 = (Some e, v0\<lparr>l_round := l_round v0 + 1\<rparr>)"
      using True e by (intro debate_loop_reject) simp_all
    then show ?thesis
      unfolding debate_unfold v0_def[symmetric] by simp
  qed
qed

section \<open>The debate loop\<close>

lemma buildDebatePrompt_Inr: "rs \<noteq> [] \<Longrightarrow> \<exists>s. buildDebatePrompt p rs = Inr s"
  by (cases "rev rs") (simp_all add: buildDebatePrompt_def Let_def)

lemma debate_loop_round:
  assumes g: "l_agreement v < t" "int (l_round v) < m"
      and r: "Promise_all (first (l_round v + 1))
                (map (\<lambda>p. query orch (l_prompt v) (Some \<lparr>qo_provider = Some p\<rparr>)) provs)
              = Inr responses"
  shows "\<exists>prompt'. debate_loop orch first provs t m v =
           debate_loop orch first provs t m
             \<lparr>l_rounds = l_rounds v @
                  [\<lparr>roundNo = l_round v + 1, arguments = responses,
                    round_agreement = calculateAgreement responses\<rparr>],
              l_agreement = calculateAgreement responses,
              l_round = l_round v + 1,
              l_prompt = prompt'\<rparr>"
proof -
  let ?rounds' = "l_rounds v @
                  [\<lparr>roundNo = l_round v + 1, arguments = responses,
                    round_agreement = calculateAgreement responses\<rparr>]"
  let ?v' = "\<lparr>l_rounds = ?rounds', l_agreement = calculateAgreement responses,
              l_round = l_round v + 1, l_prompt = l_prompt v\<rparr>"
  have unf: "debate_loop orch first provs t m v =
      (if calculateAgreement responses < t \<and> int (l_round v + 1) < m then
         (case buildDebatePrompt (l_prompt v) ?rounds' of
            Inl e \<Rightarrow> (Some e, ?v')
          | Inr prompt' \<Rightarrow> debate_loop orch first provs t m (?v'\<lparr>l_prompt := prompt'\<rparr>))
       else debate_loop orch first provs t m ?v')"
    by (subst debate_loop.simps) (simp only: g r simp_thms if_True Let_def sum.case)
  show ?thesis
  proof (cases "calculateAgreement responses < t \<and> int (l_round v + 1) < m")
    case True
    have "?rounds' \<noteq> []" by simp
    from buildDebatePrompt_Inr[OF this] obtain s where
      s: "buildDebatePrompt (l_prompt v) ?rounds' = Inr s" by blast
    have "debate_loop orch first provs t m v = debate_loop orch first provs t m (?v'\<lparr>l_prompt := s\<rparr>)"
      unfolding unf by (simp only: True simp_thms if_True s sum.case)
    then show ?thesis by auto
  next
    case False
    have "debate_loop orch first provs t m v = debate_loop orch first provs t m ?v'"
      unfolding unf by (simp only: False simp_thms if_False)
    then show ?thesis by blast
  qed
qed

lemma loop_inv_initial:
  "loop_inv t m \<lparr>l_rounds = [], l_agreement = 0, l_round = 0, l_prompt = prompt\<rparr>"
  by (simp add: loop_inv_def)

lemma loop_inv_round:
  assumes inv: "loop_inv t m v" and g: "l_agreement v < t" "int (l_round v) < m"
  shows "loop_inv t m
             \<lparr>l_rounds = l_rounds v @
                  [\<lparr>roundNo = l_round v + 1, arguments = responses,
                    round_agreement = calculateAgreement responses\<rparr>],
              l_agreement = calculateAgreement responses,
              l_round = l_round v + 1,
              l_prompt = prompt'\<rparr>"
proof -
  from inv have len: "length (l_rounds v) = l_round v"
    and nos: "map roundNo (l_rounds v) = [1..<Suc (l_round v)]"
    and lst: "l_rounds v \<noteq> [] \<longrightarrow> l_agreement v = round_agreement (last (l_rounds v))"
    and bl: "\<forall>r\<in>set (butlast (l_rounds v)). round_agreement r < t \<and> int (roundNo r) < m"
    and ag: "\<forall>r\<in>set (l_rounds v). round_agreement r = calculateAgreement (arguments r)"
    by (simp_all add: loop_inv_def)
  have lastno: "roundNo (last (l_rounds v)) = l_round v" if ne: "l_rounds v \<noteq> []"
  proof -
    have "roundNo (last (l_rounds v)) = last (map roundNo (l_rounds v))"
      using ne by (simp add: last_map)
    also have "\<dots> = last [1..<Suc (l_round v)]" by (simp only: nos)
    also have "\<dots> = l_round v" using ne len by (cases "l_round v") auto
    finally show ?thesis .
  qed
  have prev: "\<forall>r\<in>set (l_rounds v). round_agreement r < t \<and> int (roundNo r) < m"
  proof
    fix r assume r: "r \<in> set (l_rounds v)"
    then have ne: "l_rounds v \<noteq> []" by auto
    then have "l_rounds v = butlast (l_rounds v) @ [last (l_rounds v)]" by simp
    then have "r \<in> set (butlast (l_rounds v)) \<or> r = last (l_rounds v)"
      using r by (metis Un_iff empty_iff empty_set set_ConsD set_append)
    then show "round_agreement r < t \<and> int (roundNo r) < m"
    proof
      assume "r \<in> set (butlast (l_rounds v))"
      then show ?thesis using bl by blast
    next
      assume "r = last (l_rounds v)"
      then show ?thesis using lst ne g lastno by simp
    qed
  qed
  have "l_round v + 1 \<le> nat m" using g(2) by linarith
  then show ?thesis
    using len nos ag prev by (simp add: loop_inv_def butlast_append)
qed

lemma debate_loop_post:
  assumes "loop_inv t m v" and "debate_loop orch first provs t m v = (err, v')"
  shows "(err = None \<longrightarrow> loop_inv t m v' \<and> \<not> (l_agreement v' < t \<and> int (l_round v') < m))
       \<and> (\<forall>e. err = Some e \<longrightarrow>
             l_round v' = Suc (length (l_rounds v'))
           \<and> map roundNo (l_rounds v') = [1..<l_round v']
           \<and> l_round v' \<le> nat m
           \<and> (\<exists>p\<in>set provs. \<exists>prompt'.
                 query orch prompt' (Some \<lparr>qo_provider = Some p\<rparr>) = Inl e))"
  using assms
proof (induction "nat (m - int (l_round v))" arbitrary: v rule: less_induct)
  case less
  note inv = less.prems(1) and run = less.prems(2)
  show ?case
  proof (cases "l_agreement v < t \<and> int (l_round v) < m")
    case False
    from debate_loop_exit[OF False, of orch first provs] run
    have "err = None" "v' = v" by simp_all
    then show ?thesis using inv False by simp
  next
    case True
    then have g: "l_agreement v < t" "int (l_round v) < m" by simp_all
    let ?ps = "map (\<lambda>p. query orch (l_prompt v) (Some \<lparr>qo_provider = Some p\<rparr>)) provs"
    show ?thesis
    proof (cases "Promise_all (first (l_round v + 1)) ?ps")
      case (Inl e)
      from debate_loop_reject[of v t m first orch provs e, OF g Inl] run
      have r: "err = Some e" "v' = v\<lparr>l_round := l_round v + 1\<rparr>" by simp_all
      from Promise_all_Inl[OF Inl] obtain p where
        p: "p \<in> set provs" "query orch (l_prompt v) (Some \<lparr>qo_provider = Some p\<rparr>) = Inl e"
        by auto
      from inv have len: "length (l_rounds v) = l_round v"
        and nos: "map roundNo (l_rounds v) = [1..<Suc (l_round v)]"
        by (simp_all add: loop_inv_def)
      have "l_round v + 1 \<le> nat m" using g(2) by linarith
      then show ?thesis using r p len nos by auto
    next
      case (Inr responses)
      from debate_loop_round[of v t m first orch provs responses, OF g Inr] obtain prompt' where
        step: "debate_loop orch first provs t m v =
           debate_loop orch first provs t m
             \<lparr>l_rounds = l_rounds v @
                  [\<lparr>roundNo = l_round v + 1, arguments = responses,
                    round_agreement = calculateAgreement responses\<rparr>],
              l_agreement = calculateAgreement responses,
              l_round = l_round v + 1,
              l_prompt = prompt'\<rparr>" by blast
      let ?v2 = "\<lparr>l_rounds = l_rounds v @
                  [\<lparr>roundNo = l_round v + 1, arguments = responses,
                    round_agreement = calculateAgreement responses\<rparr>],
              l_agreement = calculateAgreement responses,
              l_round = l_round v + 1,
              l_prompt = prompt'\<rparr>"
      have inv2: "loop_inv t m ?v2" by (rule loop_inv_round[OF inv g])
      have run2: "debate_loop orch first provs t m ?v2 = (err, v')"
        using step run by simp
      have "nat (m - int (l_round ?v2)) < nat (m - int (l_round v))"
        using g(2) by simp
      from less.hyps[OF this inv2 run2] show ?thesis .
    qed
  qed
qed

lemma synthesizeDecision_snoc:
  "synthesizeDecision (rs @ [r]) =
     (case arguments r of [] \<Rightarrow> Inl TypeError | b # _ \<Rightarrow> Inr (content b))"
  by (simp add: synthesizeDecision_def)

lemma debate_first_round_final:
  assumes g: "0 < debate_threshold orch options" "0 < debate_maxRounds orch options"
      and r: "Promise_all (first 1)
                (map (\<lambda>p. query orch prompt (Some \<lparr>qo_provider = Some p\<rparr>))
                     (debate_providers orch options)) = Inr responses"
      and stop: "\<not> (calculateAgreement responses < debate_threshold orch options
                     \<and> 1 < debate_maxRounds orch options)"
  shows "debate orch first prompt options =
     (case responses of
        [] \<Rightarrow> Inl TypeError
      | b # _ \<Rightarrow>
          Inr \<lparr>decision = content b,
               rounds = [\<lparr>roundNo = 1, arguments = responses,
                          round_agreement = calculateAgreement responses\<rparr>],
               debate_agreement = calculateAgreement responses,
               participants = debate_providers orch options,
               debate_confidence = calculateAgreement responses\<rparr>)"
proof -
  define v0 where "v0 = \<lparr>l_rounds = [], l_agreement = 0, l_round = 0, l_prompt = prompt\<rparr>"
  have v0: "l_rounds v0 = []" "l_agreement v0 = 0" "l_round v0 = 0" "l_prompt v0 = prompt"
    by (simp_all add: v0_def)
  let ?t = "debate_threshold orch options" and ?m = "debate_maxRounds orch options"
  let ?provs = "debate_providers orch options"
  have g0: "l_agreement v0 < ?t" "int (l_round v0) < ?m" using g by (simp_all add: v0)
  have r0: "Promise_all (first (l_round v0 + 1))
                (map (\<lambda>p. query orch (l_prompt v0) (Some \<lparr>qo_provider = Some p\<rparr>)) ?provs)
            = Inr responses"
    using r by (simp add: v0)
  from debate_loop_round[of v0 ?t ?m first orch ?provs responses, OF g0 r0]
  obtain prompt' where step: "debate_loop orch first ?provs ?t ?m v0 =
           debate_loop orch first ?provs ?t ?m
             \<lparr>l_rounds = l_rounds v0 @
                  [\<lparr>roundNo = l_round v0 + 1, arguments = responses,
                    round_agreement = calculateAgreement responses\<rparr>],
              l_agreement = calculateAgreement responses,
              l_round = l_round v0 + 1,
              l_prompt = prompt'\<rparr>" by blast
  let ?v1 = "\<lparr>l_rounds = [\<lparr>roundNo = 1, arguments = responses,
                    round_agreement = calculateAgreement responses\<rparr>],
              l_agreement = calculateAgreement responses,
              l_round = 1,
              l_prompt = prompt'\<rparr>"
  have "\<not> (l_agreement ?v1 < ?t \<and> int (l_round ?v1) < ?m)" using stop by simp
  from debate_loop_exit[OF this, of orch first ?provs]
  have "debate_loop orch first ?provs ?t ?m v0 = (None, ?v1)"
    using step by (simp add: v0)
  then show ?thesis
    unfolding debate_unfold v0_def[symmetric]
    by (simp add: synthesizeDecision_def split: list.splits)
qed

text \<open>
  Claim C6. Started with no rounds, agreement 0 and counter 0, the debate loop ends
  for every threshold \<open>t\<close> and budget \<open>m\<close>; its counter, the number of iterations
  begun, never exceeds the budget; the rounds it recorded are numbered \<open>1, 2, ...\<close>
  without a gap. It is left without a failure exactly at the first round whose
  agreement reaches \<open>t\<close> or whose number reaches \<open>m\<close>: then the agreement is at
  least \<open>t\<close> or the counter equals the budget, and every earlier round had an
  agreement below \<open>t\<close> and a number below \<open>m\<close>. It is left with a failure only by
  the rejection of a query to a participant. A result of \<^verbatim>\<open>debate\<close> has at least one
  and at most \<open>m\<close> rounds, and its agreement is that of its last round.
\<close>

theorem debate_loop_bounded:
  "(debate_loop orch first provs t m
        \<lparr>l_rounds = [], l_agreement = 0, l_round = 0, l_prompt = prompt\<rparr> = (err, v) \<longrightarrow>
       l_round v \<le> nat m
     \<and> map roundNo (l_rounds v) = [1..<Suc (length (l_rounds v))]
     \<and> (err = None \<longrightarrow>
            l_round v = length (l_rounds v)
          \<and> (t \<le> l_agreement v \<or> m \<le> int (l_round v))
          \<and> (l_agreement v < t \<and> 0 \<le> m \<longrightarrow> int (l_round v) = m)
          \<and> (\<forall>r\<in>set (butlast (l_rounds v)). round_agreement r < t \<and> int (roundNo r) < m)
          \<and> (l_rounds v \<noteq> [] \<longrightarrow> l_agreement v = round_agreement (last (l_rounds v))))
     \<and> (\<forall>e. err = Some e \<longrightarrow>
            l_round v = Suc (length (l_rounds v))
          \<and> (\<exists>p\<in>set provs. \<exists>prompt'.
                query orch prompt' (Some \<lparr>qo_provider = Some p\<rparr>) = Inl e)))
   \<and> (debate orch first prompt options = Inr res \<longrightarrow>
        rounds res \<noteq> []
      \<and> int (length (rounds res)) \<le> debate_maxRounds orch options
      \<and> map roundNo (rounds res) = [1..<Suc (length (rounds res))]
      \<and> debate_agreement res = round_agreement (last (rounds res))
      \<and> (debate_threshold orch options \<le> debate_agreement res
           \<or> int (length (rounds res)) = debate_maxRounds orch options)
      \<and> (\<forall>r\<in>set (butlast (rounds res)).
            round_agreement r < debate_threshold orch options
          \<and> int (roundNo r) < debate_maxRounds orch options))"
proof -
  have loop: "l_round v \<le> nat m
     \<and> map roundNo (l_rounds v) = [1..<Suc (length (l_rounds v))]
     \<and> (err = None \<longrightarrow>
            l_round v = length (l_rounds v)
          \<and> (t \<le> l_agreement v \<or> m \<le> int (l_round v))
          \<and> (l_agreement v < t \<and> 0 \<le> m \<longrightarrow> int (l_round v) = m)
          \<and> (\<forall>r\<in>set (butlast (l_rounds v)). round_agreement r < t \<and> int (roundNo r) < m)
          \<and> (l_rounds v \<noteq> [] \<longrightarrow> l_agreement v = round_agreement (last (l_rounds v))))
     \<and> (\<forall>e. err = Some e \<longrightarrow>
            l_round v = Suc (length (l_rounds v))
          \<and> (\<exists>p\<in>set provs. \<exists>prompt'.
                query orch prompt' (Some \<lparr>qo_provider = Some p\<rparr>) = Inl e))"
    if run: "debate_loop orch first provs t m
        \<lparr>l_rounds = [], l_agreement = 0, l_round = 0, l_prompt = prompt\<rparr> = (err, v)"
    for orch first provs t m prompt err v
  proof (cases err)
    case None
    from debate_loop_post[OF loop_inv_initial run] None
    have inv: "loop_inv t m v" and ex: "\<not> (l_agreement v < t \<and> int (l_round v) < m)"
      by simp_all
    from inv have len: "length (l_rounds v) = l_round v"
      and nos: "map roundNo (l_rounds v) = [1..<Suc (l_round v)]"
      and lst: "l_rounds v \<noteq> [] \<longrightarrow> l_agreement v = round_agreement (last (l_rounds v))"
      and bl: "\<forall>r\<in>set (butlast (l_rounds v)). round_agreement r < t \<and> int (roundNo r) < m"
      and bd: "l_round v \<le> nat m"
      by (simp_all add: loop_inv_def)
    have eq: "int (l_round v) = m" if "l_agreement v < t" "0 \<le> m"
      using that ex bd by linarith
    from ex have "t \<le> l_agreement v \<or> m \<le> int (l_round v)" by linarith
    then show ?thesis using None len nos lst bl bd eq by simp
  next
    case (Some e)
    from debate_loop_post[OF loop_inv_initial run] Some
    have "l_round v = Suc (length (l_rounds v))" "map roundNo (l_rounds v) = [1..<l_round v]"
      "l_round v \<le> nat m"
      "\<exists>p\<in>set provs. \<exists>prompt'. query orch prompt' (Some \<lparr>qo_provider = Some p\<rparr>) = Inl e"
      by simp_all
    then show ?thesis using Some by simp
  qed
  have deb: "rounds res \<noteq> []
      \<and> int (length (rounds res)) \<le> debate_maxRounds orch options
      \<and> map roundNo (rounds res) = [1..<Suc (length (rounds res))]
      \<and> debate_agreement res = round_agreement (last (rounds res))
      \<and> (debate_threshold orch options \<le> debate_agreement res
           \<or> int (length (rounds res)) = debate_maxRounds orch options)
      \<and> (\<forall>r\<in>set (butlast (rounds res)).
            round_agreement r < debate_threshold orch options
          \<and> int (roundNo r) < debate_maxRounds orch options)"
    if d: "debate orch first prompt options = Inr res"
  proof -
    let ?t = "debate_threshold orch options" and ?m = "debate_maxRounds orch options"
    obtain err v where run: "debate_loop orch first (debate_providers orch options) ?t ?m
        \<lparr>l_rounds = [], l_agreement = 0, l_round = 0, l_prompt = prompt\<rparr> = (err, v)"
      by (cases "debate_loop orch first (debate_providers orch options) ?t ?m
        \<lparr>l_rounds = [], l_agreement = 0, l_round = 0, l_prompt = prompt\<rparr>") auto
    have none: "err = None"
      using d unfolding debate_unfold run by (cases err) simp_all
    obtain dd where syn: "synthesizeDecision (l_rounds v) = Inr dd"
      using d unfolding debate_unfold run none
      by (cases "synthesizeDecision (l_rounds v)") simp_all
    have res: "rounds res = l_rounds v" "debate_agreement res = l_agreement v"
      using d by (auto simp: debate_unfold run none syn)
    have ne: "l_rounds v \<noteq> []"
      using syn by (auto simp: synthesizeDecision_def)
    note L = loop[OF run]
    from L none have len: "l_round v = length (l_rounds v)" by blast
    from L have bd: "l_round v \<le> nat ?m" by blast
    have pos: "0 < length (l_rounds v)" using ne by simp
    then have mpos: "0 < ?m" using bd len by linarith
    have a: "int (length (rounds res)) \<le> ?m" using bd len mpos by (simp add: res)
    from L none have "?t \<le> l_agreement v \<or> ?m \<le> int (l_round v)" by blast
    then have b: "?t \<le> debate_agreement res \<or> int (length (rounds res)) = ?m"
      using a len by (auto simp: res)
    from L none ne have c: "debate_agreement res = round_agreement (last (rounds res))"
      by (simp add: res)
    from L have e: "map roundNo (rounds res) = [1..<Suc (length (rounds res))]"
      by (simp add: res)
    from L none have f: "\<forall>r\<in>set (butlast (rounds res)).
            round_agreement r < ?t \<and> int (roundNo r) < ?m"
      by (simp add: res)
    from ne a b c e f show ?thesis by (simp add: res)
  qed
  from loop deb show ?thesis by blast
qed

section \<open>The agreement of a round\<close>











section \<open>Debates of the example instances\<close>

lemma calculateAgreement_pair:
  "calculateAgreement [a, b]
   = calculateSimilarity (toLowerCase (content a)) (toLowerCase (content b))"
proof -
  have u: "[0..<2] = [0, 1]" "[Suc 0..<2] = [1]" "[2..<2] = []"
    by (simp_all add: upt_rec)
  show ?thesis
    by (simp add: calculateAgreement_def Let_def u)
qed

lemma pair_options:
  "debate_threshold pair_orch (Some one_round) = 0.9"
  "debate_maxRounds pair_orch (Some one_round) = 1"
  "debate_providers pair_orch (Some one_round) = [''openai'', ''anthropic'']"
  by (simp_all add: debate_threshold_def debate_maxRounds_def debate_providers_def one_round_def
        truthy_number_def pair_orch_def duo_config_def)

lemma pair_fanout:
  "Promise_all (in_order 1)
     (map (\<lambda>p. query pair_orch ''Which database?'' (Some \<lparr>qo_provider = Some p\<rparr>))
          [''openai'', ''anthropic''])
   = Inr [\<lparr>content = ''Use Postgres'', provider = ''openai'', cost = None\<rparr>,
          \<lparr>content = ''Use MongoDB'', provider = ''anthropic'', cost = None\<rparr>]"
  by code_simp

lemma pair_agreement:
  "calculateAgreement
     [\<lparr>content = ''Use Postgres'', provider = ''openai'', cost = None\<rparr>,
      \<lparr>content = ''Use MongoDB'', provider = ''anthropic'', cost = None\<rparr>] = 1 / 3"
proof -
  have "calculateSimilarity (toLowerCase ''Use Postgres'') (toLowerCase ''Use MongoDB'') = 1 / 3"
    by code_simp
  then show ?thesis by (simp add: calculateAgreement_pair)
qed

lemma pair_debate:
  "debate pair_orch in_order ''Which database?'' (Some one_round)
   = Inr \<lparr>decision = ''Use Postgres'',
          rounds = [\<lparr>roundNo = 1,
                     arguments =
                       [\<lparr>content = ''Use Postgres'', provider = ''openai'', cost = None\<rparr>,
                        \<lparr>content = ''Use MongoDB'', provider = ''anthropic'', cost = None\<rparr>],
                     round_agreement = 1 / 3\<rparr>],
          debate_agreement = 1 / 3,
          participants = [''openai'', ''anthropic''],
          debate_confidence = 1 / 3\<rparr>"
proof -
  define rs where "rs =
     [\<lparr>content = ''Use Postgres'', provider = ''openai'', cost = None\<rparr>,
      \<lparr>content = ''Use MongoDB'', provider = ''anthropic'', cost = None\<rparr>]"
  have f: "Promise_all (in_order 1)
     (map (\<lambda>p. query pair_orch ''Which database?'' (Some \<lparr>qo_provider = Some p\<rparr>))
          (debate_providers pair_orch (Some one_round))) = Inr rs"
    unfolding rs_def pair_options by (rule pair_fanout)
  have a: "calculateAgreement rs = 1 / 3"
    unfolding rs_def by (rule pair_agreement)
  have g: "0 < debate_threshold pair_orch (Some one_round)"
    "0 < debate_maxRounds pair_orch (Some one_round)"
    by (simp_all add: pair_options)
  have stop: "\<not> (calculateAgreement rs < debate_threshold pair_orch (Some one_round)
                 \<and> 1 < debate_maxRounds pair_orch (Some one_round))"
    by (simp add: pair_options)
  have "debate pair_orch in_order ''Which database?'' (Some one_round) =
     (case rs of
        [] \<Rightarrow> Inl TypeError
      | b # _ \<Rightarrow>
          Inr \<lparr>decision = content b,
               rounds = [\<lparr>roundNo = 1, arguments = rs,
                          round_agreement = calculateAgreement rs\<rparr>],
               debate_agreement = calculateAgreement rs,
               participants = debate_providers pair_orch (Some one_round),
               debate_confidence = calculateAgreement rs\<rparr>)"
    by (rule debate_first_round_final[where first = in_order, OF g f stop])
  then show ?thesis
    unfolding a pair_options by (simp add: rs_def)
qed

lemma unnamed_options:
  "debate_threshold (removeProvider [] (new_Orchestra unnamed_config)) None = 0.7"
  "debate_maxRounds (removeProvider [] (new_Orchestra unnamed_config)) None = 3"
  "debate_providers (removeProvider [] (new_Orchestra unnamed_config)) None = [[], ''openai'']"
  by (simp_all add: debate_threshold_def debate_maxRounds_def debate_providers_def
        truthy_number_def new_Orchestra_def unnamed_config_def removeProvider_def)

lemma unnamed_fanout:
  "Promise_all (in_order 1)
     (map (\<lambda>p. query (removeProvider [] (new_Orchestra unnamed_config)) ''Hi''
                 (Some \<lparr>qo_provider = Some p\<rparr>))
          [[], ''openai''])
   = Inr [\<lparr>content = ''Response from openai: This is a simulated response to ''
                        @ [CHR 0x22] @ ''Hi'' @ [CHR 0x22],
            provider = ''openai'', cost = Some 0.001\<rparr>,
          \<lparr>content = ''Response from openai: This is a simulated response to ''
                        @ [CHR 0x22] @ ''Hi'' @ [CHR 0x22],
            provider = ''openai'', cost = Some 0.001\<rparr>]"
  by code_simp

lemma unnamed_debate:
  "map_sum id participants
     (debate (removeProvider [] (new_Orchestra unnamed_config)) in_order ''Hi'' None)
   = Inr [[], ''openai'']"
proof -
  define r where "r =
     \<lparr>content = ''Response from openai: This is a simulated response to ''
                        @ [CHR 0x22] @ ''Hi'' @ [CHR 0x22],
            provider = ''openai'', cost = Some 0.001\<rparr>"
  let ?U = "removeProvider [] (new_Orchestra unnamed_config)"
  have f: "Promise_all (in_order 1)
     (map (\<lambda>p. query ?U ''Hi'' (Some \<lparr>qo_provider = Some p\<rparr>))
          (debate_providers ?U None)) = Inr [r, r]"
    unfolding r_def unnamed_options by (rule unnamed_fanout)
  have a: "calculateAgreement [r, r] = 1"
    unfolding calculateAgreement_pair by (rule calculateSimilarity_same_words) (rule refl)
  have g: "0 < debate_threshold ?U None" "0 < debate_maxRounds ?U None"
    by (simp_all add: unnamed_options)
  have stop: "\<not> (calculateAgreement [r, r] < debate_threshold ?U None
                 \<and> 1 < debate_maxRounds ?U None)"
    by (simp only: a unnamed_options) simp
  have "debate ?U in_order ''Hi'' None =
     (case [r, r] of
        [] \<Rightarrow> Inl TypeError
      | b # _ \<Rightarrow>
          Inr \<lparr>decision = content b,
               rounds = [\<lparr>roundNo = 1, arguments = [r, r],
                          round_agreement = calculateAgreement [r, r]\<rparr>],
               debate_agreement = calculateAgreement [r, r],
               participants = debate_providers ?U None,
               debate_confidence = calculateAgreement [r, r]\<rparr>)"
    by (rule debate_first_round_final[where first = in_order, OF g f stop])
  then show ?thesis
    unfolding a unnamed_options by simp
qed

text \<open>
  Claim C10 says that a provider removed with \<^verbatim>\<open>removeProvider\<close> stays a participant of
  a default debate, where its query fails because the provider is not found. That
  fails for a configured provider whose name is the empty string: \<^verbatim>\<open>query\<close> reads
  the empty name as no name and asks the default provider, so the query is answered
  and the debate returns.
\<close>

theorem empty_name_counterexample:
  "[] \<in> set (map fst (cfg_providers unnamed_config))
   \<and> [] \<in> set (debate_providers (removeProvider [] (new_Orchestra unnamed_config)) None)
   \<and> registry_get [] (registry (removeProvider [] (new_Orchestra unnamed_config))) = None
   \<and> map_sum id provider
        (query (removeProvider [] (new_Orchestra unnamed_config)) ''Hi''
           (Some \<lparr>qo_provider = Some []\<rparr>))
      = Inr ''openai''
   \<and> map_sum id participants
        (debate (removeProvider [] (new_Orchestra unnamed_config)) in_order ''Hi'' None)
      = Inr [[], ''openai'']"
proof -
  have "[] \<in> set (map fst (cfg_providers unnamed_config))
   \<and> [] \<in> set (debate_providers (removeProvider [] (new_Orchestra unnamed_config)) None)
   \<and> registry_get [] (registry (removeProvider [] (new_Orchestra unnamed_config))) = None
   \<and> map_sum id provider
        (query (removeProvider [] (new_Orchestra unnamed_config)) ''Hi''
           (Some \<lparr>qo_provider = Some []\<rparr>))
      = Inr ''openai''"
    by code_simp
  with unnamed_debate show ?thesis by blast
qed

text \<open>
  Claim C10, amended. Without \<^verbatim>\<open>options.providers\<close>, \<^verbatim>\<open>consensus\<close> takes its providers
  from the registry and \<^verbatim>\<open>debate\<close> from the names of the configuration given at
  construction. A provider added with \<^verbatim>\<open>addProvider\<close> under a name that is not in the
  configuration is among the providers of a default consensus call and not among the
  participants of a default debate. A configured provider removed with
  \<^verbatim>\<open>removeProvider\<close> is no longer among the providers of a default consensus call and
  is still a participant of a default debate; if its name is not empty, its query
  fails with \<open>Provider n not found\<close> and the debate call fails.
\<close>

theorem providers_of_consensus_and_debate:
  "(name \<notin> set (map fst (cfg_providers (config orch))) \<longrightarrow>
      name \<in> set (consensus_providerNames (registry (addProvider name c orch)) None)
    \<and> name \<notin> set (debate_providers (addProvider name c orch) None)
    \<and> (\<forall>res. consensus (addProvider name c orch) first prompt None = Inr res
          \<longrightarrow> name \<in> set (providers res))
    \<and> (\<forall>res. debate (addProvider name c orch) first' prompt None = Inr res
          \<longrightarrow> name \<notin> set (participants res)))
   \<and> (name \<in> set (map fst (cfg_providers (config orch))) \<longrightarrow>
      name \<notin> set (consensus_providerNames (registry (removeProvider name orch)) None)
    \<and> name \<in> set (debate_providers (removeProvider name orch) None)
    \<and> (name \<noteq> [] \<longrightarrow>
          query (removeProvider name orch) prompt (Some \<lparr>qo_provider = Some name\<rparr>)
            = Inl (Error (''Provider '' @ name @ '' not found''))
        \<and> (\<exists>e. debate (removeProvider name orch) first' prompt None = Inl e)))"
proof -
  have cfg_add: "config (addProvider name c orch) = config orch"
    and cfg_rm: "config (removeProvider name orch) = config orch"
    by (simp_all add: addProvider_def removeProvider_def)
  have a1: "name \<in> set (consensus_providerNames (registry (addProvider name c orch)) None)"
    by (simp add: consensus_providerNames_def addProvider_def registry_list_register)
  have a2: "name \<notin> set (debate_providers (addProvider name c orch) None)"
    if "name \<notin> set (map fst (cfg_providers (config orch)))"
    using that by (simp add: debate_providers_def cfg_add)
  have a3: "name \<in> set (providers res)"
    if "consensus (addProvider name c orch) first prompt None = Inr res" for res
    using consensus_providers[OF that] a1 by simp
  have a4: "name \<notin> set (participants res)"
    if "name \<notin> set (map fst (cfg_providers (config orch)))"
       "debate (addProvider name c orch) first' prompt None = Inr res" for res
    using debate_participants[OF that(2)] a2[OF that(1)] by simp
  have r1: "name \<notin> set (consensus_providerNames (registry (removeProvider name orch)) None)"
    by (simp add: consensus_providerNames_def removeProvider_def registry_list_remove)
  have r2: "name \<in> set (debate_providers (removeProvider name orch) None)"
    if "name \<in> set (map fst (cfg_providers (config orch)))"
    using that by (simp add: debate_providers_def cfg_rm)
  have gone: "registry_get name (registry (removeProvider name orch)) = None"
    by (simp add: removeProvider_def registry_get_remove)
  have r3: "query (removeProvider name orch) prompt (Some \<lparr>qo_provider = Some name\<rparr>)
            = Inl (Error (''Provider '' @ name @ '' not found''))" if "name \<noteq> []"
    using query_not_found[OF that gone] .
  have r4: "\<exists>e. debate (removeProvider name orch) first' prompt None = Inl e"
    if "name \<in> set (map fst (cfg_providers (config orch)))" "name \<noteq> []"
    by (rule debate_rejected_participant[OF r2[OF that(1)]]) (simp add: r3[OF that(2)])
  from a1 a2 a3 a4 r1 r2 r3 r4 show ?thesis by blast
qed

section \<open>Debate and administration: instances\<close>

theorem debate_loop_bounded_witness:
  "(\<exists>err v. debate_loop pair_orch in_order [''openai'', ''anthropic''] 0.9 1
                \<lparr>l_rounds = [], l_agreement = 0, l_round = 0, l_prompt = ''Which database?''\<rparr>
              = (err, v)
            \<and> l_round v \<le> nat 1
            \<and> map roundNo (l_rounds v) = [1..<Suc (length (l_rounds v))])
   \<and> (\<exists>res. debate pair_orch in_order ''Which database?'' (Some one_round) = Inr res
          \<and> rounds res \<noteq> []
          \<and> map roundNo (rounds res) = [1..<Suc (length (rounds res))]
          \<and> debate_agreement res = round_agreement (last (rounds res))
          \<and> debate_agreement res = 1 / 3
          \<and> int (length (rounds res)) = debate_maxRounds pair_orch (Some one_round))"
proof -
  obtain err v where run:
    "debate_loop pair_orch in_order [''openai'', ''anthropic''] 0.9 1
       \<lparr>l_rounds = [], l_agreement = 0, l_round = 0, l_prompt = ''Which database?''\<rparr> = (err, v)"
    by (cases "debate_loop pair_orch in_order [''openai'', ''anthropic''] 0.9 1
       \<lparr>l_rounds = [], l_agreement = 0, l_round = 0, l_prompt = ''Which database?''\<rparr>") auto
  from debate_loop_bounded[where orch = pair_orch and first = in_order
      and provs = "[''openai'', ''anthropic'']" and t = "0.9" and m = 1
      and prompt = "''Which database?''" and err = err and v = v] run
  have 1: "l_round v \<le> nat 1 \<and> map roundNo (l_rounds v) = [1..<Suc (length (l_rounds v))]"
    by blast
  define res where "res = \<lparr>decision = ''Use Postgres'',
          rounds = [\<lparr>roundNo = 1,
                     arguments =
                       [\<lparr>content = ''Use Postgres'', provider = ''openai'', cost = None\<rparr>,
                        \<lparr>content = ''Use MongoDB'', provider = ''anthropic'', cost = None\<rparr>],
                     round_agreement = 1 / 3\<rparr>],
          debate_agreement = 1 / 3,
          participants = [''openai'', ''anthropic''],
          debate_confidence = 1 / 3\<rparr>"
  have d: "debate pair_orch in_order ''Which database?'' (Some one_round) = Inr res"
    unfolding res_def by (rule pair_debate)
  have a: "debate_agreement res = 1 / 3" by (simp add: res_def)
  from debate_loop_bounded[where orch = pair_orch and first = in_order
      and prompt = "''Which database?''" and options = "Some one_round" and res = res] d
  have 2: "rounds res \<noteq> []
      \<and> map roundNo (rounds res) = [1..<Suc (length (rounds res))]
      \<and> debate_agreement res = round_agreement (last (rounds res))
      \<and> (debate_threshold pair_orch (Some one_round) \<le> debate_agreement res
           \<or> int (length (rounds res)) = debate_maxRounds pair_orch (Some one_round))"
    by blast
  have "\<not> debate_threshold pair_orch (Some one_round) \<le> debate_agreement res"
    by (simp add: a pair_options)
  with 2 have 3: "int (length (rounds res)) = debate_maxRounds pair_orch (Some one_round)"
    by blast
  from run 1 d 2 3 a show ?thesis by blast
qed


theorem providers_of_consensus_and_debate_witness:
  "''google'' \<in> set (consensus_providerNames
                        (registry (addProvider ''google'' cfg0 (new_Orchestra duo_config))) None)
   \<and> ''google'' \<notin> set (debate_providers (addProvider ''google'' cfg0 (new_Orchestra duo_config)) None)
   \<and> ''anthropic'' \<notin> set (consensus_providerNames
                        (registry (removeProvider ''anthropic'' (new_Orchestra duo_config))) None)
   \<and> ''anthropic'' \<in> set (debate_providers (removeProvider ''anthropic'' (new_Orchestra duo_config)) None)
   \<and> query (removeProvider ''anthropic'' (new_Orchestra duo_config)) ''Which database?''
        (Some \<lparr>qo_provider = Some ''anthropic''\<rparr>)
      = Inl (Error ''Provider anthropic not found'')
   \<and> (\<exists>e. debate (removeProvider ''anthropic'' (new_Orchestra duo_config)) in_order
             ''Which database?'' None = Inl e)"
proof -
  have g: "''google'' \<notin> set (map fst (cfg_providers (config (new_Orchestra duo_config))))"
    by (simp add: new_Orchestra_def duo_config_def)
  have a: "''anthropic'' \<in> set (map fst (cfg_providers (config (new_Orchestra duo_config))))"
    by (simp add: new_Orchestra_def duo_config_def)
  have n: "''anthropic'' \<noteq> []" by simp
  from providers_of_consensus_and_debate[where name = "''google''"
      and orch = "new_Orchestra duo_config" and c = cfg0] g
  have 1: "''google'' \<in> set (consensus_providerNames
                        (registry (addProvider ''google'' cfg0 (new_Orchestra duo_config))) None)
   \<and> ''google'' \<notin> set (debate_providers (addProvider ''google'' cfg0 (new_Orchestra duo_config)) None)"
    by blast
  from providers_of_consensus_and_debate[where name = "''anthropic''"
      and orch = "new_Orchestra duo_config" and first' = in_order
      and prompt = "''Which database?''"] a n
  have 2: "''anthropic'' \<notin> set (consensus_providerNames
                        (registry (removeProvider ''anthropic'' (new_Orchestra duo_config))) None)
   \<and> ''anthropic'' \<in> set (debate_providers (removeProvider ''anthropic'' (new_Orchestra duo_config)) None)
   \<and> query (removeProvider ''anthropic'' (new_Orchestra duo_config)) ''Which database?''
        (Some \<lparr>qo_provider = Some ''anthropic''\<rparr>)
      = Inl (Error (''Provider '' @ ''anthropic'' @ '' not found''))
   \<and> (\<exists>e. debate (removeProvider ''anthropic'' (new_Orchestra duo_config)) in_order
             ''Which database?'' None = Inl e)"
    by blast
  from 1 2 show ?thesis by simp
qed

end
